theory Spec2Isabelle
  imports Main "HOL-Library.Word"
begin

section \<open>The buffer cache of kernel/bio.c\<close>

text \<open>
  The cache is the global \<^verbatim>\<open>bcache\<close>: an array \<^verbatim>\<open>buf[NBUF]\<close> of buffers, an array
  \<^verbatim>\<open>head[NBUCKET]\<close> of list sentinels and an array \<^verbatim>\<open>bktlock[NBUCKET]\<close> of spinlocks.
  Every bucket is a circular doubly linked list through the \<^verbatim>\<open>prev\<close>/\<^verbatim>\<open>next\<close> fields,
  closed by its sentinel. The model keeps the pointers: a pointer is the address of an
  element of one of the two arrays, and the lists are what the pointer fields say.

  \<^verbatim>\<open>NBUCKET\<close> and \<^verbatim>\<open>NBUF\<close> come from param.h, which is not part of the sources at
  hand; the functions take them as the parameters \<open>NBUCKET\<close> and \<open>NBUF\<close>.
\<close>

subsection \<open>Data\<close>

type_synonym uint = "32 word"
type_synonym uchar = "8 word"

text \<open>\<^verbatim>\<open>struct buf *\<close>: the address of \<^verbatim>\<open>bcache.head[i]\<close> or of \<^verbatim>\<open>bcache.buf[j]\<close>.\<close>

datatype ptr = Head nat | Buf nat

text \<open>
  \<^verbatim>\<open>struct buf\<close> (buf.h), with the fields bio.c uses. The field \<^verbatim>\<open>next\<close> is named
  \<open>nextb\<close> here and \<^verbatim>\<open>prev\<close> is named \<open>prevb\<close>. The sleep-lock \<^verbatim>\<open>lock\<close> is kept as
  its holder: \<open>None\<close> when it is free, \<open>Some pid\<close> when process \<open>pid\<close> holds it.
\<close>

record buf =
  valid :: int
  dev :: uint
  blockno :: uint
  lock :: "nat option"
  refcnt :: uint
  prevb :: ptr
  nextb :: ptr
  data :: "uchar list"
  lastuse :: uint

text \<open>The two fields that count the users of a buffer and date its last release.\<close>

datatype field = Refcnt | Lastuse

text \<open>
  What a call does to the locks and to the disk, in program order. The bucket spinlocks
  and the disk driver are not part of bio.c; the model records each call to them.
  \<open>Store b f\<close> is an assignment to the field \<open>f\<close> of \<^verbatim>\<open>*b\<close> by \<^verbatim>\<open>brelse\<close>, \<^verbatim>\<open>bpin\<close> or
  \<^verbatim>\<open>bunpin\<close>, the three operations on a buffer the caller already has: it is recorded
  where it happens among the calls to \<^verbatim>\<open>acquire\<close> and \<^verbatim>\<open>release\<close>.
\<close>

datatype event =
    Acquire nat
  | Release nat
  | AcquireSleep ptr
  | ReleaseSleep ptr
  | DiskRW ptr bool
  | Store ptr field

text \<open>
  The global state: the two arrays of \<^verbatim>\<open>bcache\<close>, the tick counter \<^verbatim>\<open>ticks\<close>, the disk
  (the block stored at each device and block number) and the record of lock and disk calls.
\<close>

record bcache =
  buf :: "nat \<Rightarrow> buf"
  head :: "nat \<Rightarrow> buf"
  ticks :: uint
  disk :: "uint \<times> uint \<Rightarrow> uchar list"
  trace :: "event list"

text \<open>Reading and writing through a pointer.\<close>

fun get :: "bcache \<Rightarrow> ptr \<Rightarrow> buf" where
  "get s (Head i) = head s i"
| "get s (Buf j) = buf s j"

fun upd :: "ptr \<Rightarrow> (buf \<Rightarrow> buf) \<Rightarrow> bcache \<Rightarrow> bcache" where
  "upd (Head i) f s = s\<lparr>head := (head s)(i := f (head s i))\<rparr>"
| "upd (Buf j) f s = s\<lparr>buf := (buf s)(j := f (buf s j))\<rparr>"

text \<open>An assignment to a field of \<^verbatim>\<open>*b\<close> that is recorded: the event, then the write.\<close>

definition store :: "ptr \<Rightarrow> field \<Rightarrow> (buf \<Rightarrow> buf) \<Rightarrow> bcache \<Rightarrow> bcache" where
  "store b fld f s = upd b f (s\<lparr>trace := trace s @ [Store b fld]\<rparr>)"

text \<open>
  How a call ends: it returns, it panics, it is suspended in \<^verbatim>\<open>acquiresleep\<close> on a
  sleep-lock that is held, or it indexes \<^verbatim>\<open>bktlock\<close>/\<^verbatim>\<open>head\<close> outside their bounds.
\<close>

datatype 'a result = Return 'a | Panic string | Sleeping ptr | Fault

subsection \<open>hash\<close>

text \<open>
  C's \<^verbatim>\<open>%\<close> on \<^verbatim>\<open>int\<close> truncates towards zero: the remainder has the sign of the dividend.
\<close>

definition c_rem :: "int \<Rightarrow> int \<Rightarrow> int" where
  "c_rem a b = sgn a * (\<bar>a\<bar> mod \<bar>b\<bar>)"

text \<open>
  \<^verbatim>\<open>int hash(int blockno) { return blockno%NBUCKET; }\<close>
  The callers hold the block number as a \<^verbatim>\<open>uint\<close>; passing it converts it to \<^verbatim>\<open>int\<close>,
  which keeps the 32 bits and reads them as two's complement (\<open>sint\<close>).
\<close>

definition hash :: "nat \<Rightarrow> uint \<Rightarrow> int" where
  "hash NBUCKET blk = c_rem (sint blk) (int NBUCKET)"

subsection \<open>The primitives bio.c is built on\<close>

text \<open>
  Modelled from the spec: the bucket's exclusion primitive (\<^verbatim>\<open>acquire\<close> and \<^verbatim>\<open>release\<close> of
  spinlock.c, not among the sources). A call is recorded in the trace; which bucket
  primitives are held at a point of a call is read off the trace.
\<close>

definition acquire :: "nat \<Rightarrow> bcache \<Rightarrow> bcache" where
  "acquire i s = s\<lparr>trace := trace s @ [Acquire i]\<rparr>"

definition release :: "nat \<Rightarrow> bcache \<Rightarrow> bcache" where
  "release i s = s\<lparr>trace := trace s @ [Release i]\<rparr>"

text \<open>
  Modelled from the spec: the content-lock (sleeplock.c, not among the sources), "a
  blocking, single-holder exclusion primitive". \<open>p\<close> is the calling process.
  \<^verbatim>\<open>acquiresleep\<close> takes a free lock and returns; on a held lock the caller is suspended.
\<close>

definition holdingsleep :: "nat \<Rightarrow> ptr \<Rightarrow> bcache \<Rightarrow> bool" where
  "holdingsleep p b s = (lock (get s b) = Some p)"

definition acquiresleep :: "nat \<Rightarrow> ptr \<Rightarrow> bcache \<Rightarrow> ptr result \<times> bcache" where
  "acquiresleep p b s =
     (let s1 = s\<lparr>trace := trace s @ [AcquireSleep b]\<rparr> in
      if lock (get s1 b) = None then (Return b, upd b (\<lambda>x. x\<lparr>lock := Some p\<rparr>) s1)
      else (Sleeping b, s1))"

definition releasesleep :: "ptr \<Rightarrow> bcache \<Rightarrow> bcache" where
  "releasesleep b s = upd b (\<lambda>x. x\<lparr>lock := None\<rparr>) (s\<lparr>trace := trace s @ [ReleaseSleep b]\<rparr>)"

definition initsleeplock :: "ptr \<Rightarrow> bcache \<Rightarrow> bcache" where
  "initsleeplock b s = upd b (\<lambda>x. x\<lparr>lock := None\<rparr>) s"

text \<open>
  Modelled from the spec: the transfer primitive (\<^verbatim>\<open>virtio_disk_rw(b, write)\<close>, not among
  the sources), which "reads or writes one fixed-size block between \<^verbatim>\<open>entry.content\<close> and
  the device at \<^verbatim>\<open>(device_id, block_number)\<close>".
\<close>

definition virtio_disk_rw :: "ptr \<Rightarrow> bool \<Rightarrow> bcache \<Rightarrow> bcache" where
  "virtio_disk_rw b w s =
     (let s1 = s\<lparr>trace := trace s @ [DiskRW b w]\<rparr>; k = (dev (get s1 b), blockno (get s1 b)) in
      if w then s1\<lparr>disk := (disk s1)(k := data (get s1 b))\<rparr>
      else upd b (\<lambda>x. x\<lparr>data := disk s1 k\<rparr>) s1)"

text \<open>
  \<^verbatim>\<open>memset(&maxtick, 1, sizeof maxtick)\<close> stores the byte \<open>c\<close> in each of the four bytes
  of a \<^verbatim>\<open>uint\<close>.
\<close>

definition memset_uint :: "uchar \<Rightarrow> uint" where
  "memset_uint c = ucast c * 0x01010101"

subsection \<open>binit\<close>

text \<open>
  The first loop makes every bucket the empty list; the second pushes each buffer on
  the front of bucket 0. \<^verbatim>\<open>initlock\<close> only names a spinlock and leaves it free.
  \<^verbatim>\<open>bcache.head\<close> has \<^verbatim>\<open>NBUCKET\<close> elements, so \<^verbatim>\<open>head[0]\<close> exists when \<open>0 < NBUCKET\<close>.
\<close>

definition binit_head :: "nat \<Rightarrow> bcache \<Rightarrow> bcache" where
  "binit_head i s =
     (let s1 = upd (Head i) (\<lambda>x. x\<lparr>prevb := Head i\<rparr>) s;
          s2 = upd (Head i) (\<lambda>x. x\<lparr>nextb := Head i\<rparr>) s1
      in s2)"

definition binit_buf :: "nat \<Rightarrow> bcache \<Rightarrow> bcache" where
  "binit_buf j s =
     (let b = Buf j;
          s1 = upd b (\<lambda>x. x\<lparr>nextb := nextb (head s 0)\<rparr>) s;
          s2 = upd b (\<lambda>x. x\<lparr>prevb := Head 0\<rparr>) s1;
          s3 = initsleeplock b s2;
          s4 = upd (nextb (head s3 0)) (\<lambda>x. x\<lparr>prevb := b\<rparr>) s3;
          s5 = upd (Head 0) (\<lambda>x. x\<lparr>nextb := b\<rparr>) s4
      in s5)"

definition binit :: "nat \<Rightarrow> nat \<Rightarrow> bcache \<Rightarrow> bcache" where
  "binit NBUCKET NBUF s = fold binit_buf [0..<NBUF] (fold binit_head [0..<NBUCKET] s)"

subsection \<open>bget\<close>

text \<open>
  The lookup loop (\<^verbatim>\<open>for(b = head.next; b != &head; b = b->next)\<close>): the first buffer
  of the list with the device and block number asked for, if there is one. The loop
  follows the pointers, so on a list that never comes back to its sentinel it does not
  end: the result is \<open>None\<close> then.
\<close>

partial_function (option) find_cached ::
  "bcache \<Rightarrow> ptr \<Rightarrow> uint \<Rightarrow> uint \<Rightarrow> ptr \<Rightarrow> ptr option option" where
  "find_cached s sentinel d bn b =
     (if b = sentinel then Some None
      else if dev (get s b) = d \<and> blockno (get s b) = bn then Some (Some b)
      else find_cached s sentinel d bn (nextb (get s b)))"

declare find_cached.simps [code]

text \<open>
  The body of both reclamation loops: a buffer with \<^verbatim>\<open>refcnt == 0\<close> whose \<^verbatim>\<open>lastuse\<close> is
  below \<^verbatim>\<open>maxtick\<close> becomes the candidate \<^verbatim>\<open>cozybuf\<close>. The loop over a foreign bucket also
  sets \<^verbatim>\<open>ischanged\<close>; the loop over the home bucket has no such flag and its caller drops it.
\<close>

fun consider_buf :: "bcache \<Rightarrow> ptr \<Rightarrow> uint \<times> ptr option \<times> bool \<Rightarrow> uint \<times> ptr option \<times> bool" where
  "consider_buf s b (maxtick, cozybuf, ischanged) =
     (if refcnt (get s b) = 0 \<and> lastuse (get s b) < maxtick
      then (lastuse (get s b), Some b, True)
      else (maxtick, cozybuf, ischanged))"

text \<open>\<^verbatim>\<open>for(b = head.prev; b != &head; b = b->prev)\<close>\<close>

partial_function (option) scan ::
  "bcache \<Rightarrow> ptr \<Rightarrow> ptr \<Rightarrow> uint \<times> ptr option \<times> bool \<Rightarrow> (uint \<times> ptr option \<times> bool) option" where
  "scan s sentinel b acc =
     (if b = sentinel then Some acc
      else scan s sentinel (prevb (get s b)) (consider_buf s b acc))"

declare scan.simps [code]

text \<open>
  \<^verbatim>\<open>for (int i=0; i<NBUCKET; i++)\<close> of the eviction block, from \<open>i\<close> on. It carries
  \<^verbatim>\<open>maxtick\<close>, \<^verbatim>\<open>cozybuf\<close> and \<^verbatim>\<open>bktid\<close>, the bucket whose spinlock is kept.
\<close>

function eviction_scan ::
  "nat \<Rightarrow> nat \<Rightarrow> nat \<Rightarrow> uint \<times> ptr option \<times> nat \<Rightarrow> bcache
     \<Rightarrow> ((uint \<times> ptr option \<times> nat) \<times> bcache) option" where
  "eviction_scan NBUCKET lockid i (maxtick, cozybuf, bktid) s =
     (if i < NBUCKET then
        if i = lockid then eviction_scan NBUCKET lockid (Suc i) (maxtick, cozybuf, bktid) s
        else
          (let s1 = acquire i s in
           case scan s1 (Head i) (prevb (head s1 i)) (maxtick, cozybuf, False) of
             None \<Rightarrow> None
           | Some (maxtick', cozybuf', ischanged) \<Rightarrow>
               if ischanged
               then eviction_scan NBUCKET lockid (Suc i) (maxtick', cozybuf', i)
                      (if bktid \<noteq> lockid then release bktid s1 else s1)
               else eviction_scan NBUCKET lockid (Suc i) (maxtick', cozybuf', bktid)
                      (release i s1))
      else Some ((maxtick, cozybuf, bktid), s))"
  by pat_completeness auto
termination
  by (relation "measure (\<lambda>(NBUCKET, lockid, i, acc, s). NBUCKET - i)") auto

text \<open>
  Lines 171-172 take \<^verbatim>\<open>cozybuf\<close> out of the list it is on; lines 173-177 put it right
  after the sentinel of bucket \<^verbatim>\<open>lockid\<close>. Each assignment reads the store the one before
  it left.
\<close>

definition unlink :: "ptr \<Rightarrow> bcache \<Rightarrow> bcache" where
  "unlink cozybuf s =
     (let s1 = upd (prevb (get s cozybuf)) (\<lambda>x. x\<lparr>nextb := nextb (get s cozybuf)\<rparr>) s;
          s2 = upd (nextb (get s1 cozybuf)) (\<lambda>x. x\<lparr>prevb := prevb (get s1 cozybuf)\<rparr>) s1
      in s2)"

definition push_front :: "nat \<Rightarrow> ptr \<Rightarrow> bcache \<Rightarrow> bcache" where
  "push_front lockid cozybuf s =
     (let s1 = upd cozybuf (\<lambda>x. x\<lparr>nextb := nextb (head s lockid)\<rparr>) s;
          s2 = upd cozybuf (\<lambda>x. x\<lparr>prevb := Head lockid\<rparr>) s1;
          s3 = upd (nextb (head s2 lockid)) (\<lambda>x. x\<lparr>prevb := cozybuf\<rparr>) s2;
          s4 = upd (Head lockid) (\<lambda>x. x\<lparr>nextb := cozybuf\<rparr>) s3
      in s4)"

text \<open>\<^verbatim>\<open>b->dev = dev; b->blockno = blockno; b->valid = 0; b->refcnt = 1;\<close>\<close>

definition rebind :: "uint \<Rightarrow> uint \<Rightarrow> buf \<Rightarrow> buf" where
  "rebind d bn x = x\<lparr>dev := d, blockno := bn, valid := 0, refcnt := 1\<rparr>"

text \<open>
  The block after the label \<^verbatim>\<open>eviction\<close>. It is entered with no candidate
  (\<^verbatim>\<open>cozybuf == 0\<close>) and with the spinlock of the home bucket released.
\<close>

definition eviction ::
  "nat \<Rightarrow> nat \<Rightarrow> nat \<Rightarrow> uint \<Rightarrow> uint \<Rightarrow> uint \<Rightarrow> bcache \<Rightarrow> (ptr result \<times> bcache) option" where
  "eviction NBUCKET p lockid d bn maxtick s =
     (case eviction_scan NBUCKET lockid 0 (maxtick, None, lockid) s of
        None \<Rightarrow> None
      | Some ((maxtick', cozybuf, bktid), s1) \<Rightarrow>
          (let s2 = acquire lockid s1 in
           case find_cached s2 (Head lockid) d bn (nextb (head s2 lockid)) of
             None \<Rightarrow> None
           | Some (Some bb) \<Rightarrow>
               (let s3 = upd bb (\<lambda>x. x\<lparr>refcnt := refcnt x + 1\<rparr>) s2;
                    s4 = release lockid s3;
                    s5 = (if bktid \<noteq> lockid then release bktid s4 else s4)
                in Some (acquiresleep p bb s5))
           | Some None \<Rightarrow>
               (case cozybuf of
                  None \<Rightarrow>
                    (let s3 = release lockid s2;
                         s4 = (if bktid \<noteq> lockid then release bktid s3 else s3)
                     in Some (Panic ''bget: no buffers'', s4))
                | Some c \<Rightarrow>
                    (let s3 = push_front lockid c (unlink c s2);
                         s4 = upd c (rebind d bn) s3;
                         s5 = release lockid s4;
                         s6 = release bktid s5
                     in Some (acquiresleep p c s6)))))"

text \<open>
  \<^verbatim>\<open>bget(dev, blockno)\<close>, called by process \<open>p\<close>. \<^verbatim>\<open>lockid\<close> indexes \<^verbatim>\<open>bktlock\<close> and
  \<^verbatim>\<open>head\<close>; an index outside \<open>[0, NBUCKET)\<close> is the result \<open>Fault\<close>.
\<close>

definition bget ::
  "nat \<Rightarrow> nat \<Rightarrow> uint \<Rightarrow> uint \<Rightarrow> bcache \<Rightarrow> (ptr result \<times> bcache) option" where
  "bget NBUCKET p d bn s =
     (let lockid = hash NBUCKET bn in
      if lockid < 0 \<or> int NBUCKET \<le> lockid then Some (Fault, s)
      else
        (let h = nat lockid; s1 = acquire h s in
         case find_cached s1 (Head h) d bn (nextb (head s1 h)) of
           None \<Rightarrow> None
         | Some (Some b) \<Rightarrow>
             (let s2 = upd b (\<lambda>x. x\<lparr>refcnt := refcnt x + 1\<rparr>) s1;
                  s3 = release h s2
              in Some (acquiresleep p b s3))
         | Some None \<Rightarrow>
             (case scan s1 (Head h) (prevb (head s1 h)) (memset_uint 1, None, False) of
                None \<Rightarrow> None
              | Some (maxtick, cozybuf, ischanged) \<Rightarrow>
                  (case cozybuf of
                     None \<Rightarrow> eviction NBUCKET p h d bn maxtick (release h s1)
                   | Some b \<Rightarrow>
                       (let s2 = upd b (rebind d bn) s1;
                            s3 = release h s2
                        in Some (acquiresleep p b s3))))))"

subsection \<open>bread, bwrite, brelse, bpin, bunpin\<close>

definition bread ::
  "nat \<Rightarrow> nat \<Rightarrow> uint \<Rightarrow> uint \<Rightarrow> bcache \<Rightarrow> (ptr result \<times> bcache) option" where
  "bread NBUCKET p d bn s =
     (case bget NBUCKET p d bn s of
        None \<Rightarrow> None
      | Some (Return b, s1) \<Rightarrow>
          if valid (get s1 b) = 0
          then Some (Return b, upd b (\<lambda>x. x\<lparr>valid := 1\<rparr>) (virtio_disk_rw b False s1))
          else Some (Return b, s1)
      | Some (r, s1) \<Rightarrow> Some (r, s1))"

definition bwrite :: "nat \<Rightarrow> ptr \<Rightarrow> bcache \<Rightarrow> unit result \<times> bcache" where
  "bwrite p b s =
     (if holdingsleep p b s then (Return (), virtio_disk_rw b True s)
      else (Panic ''bwrite'', s))"

definition brelse :: "nat \<Rightarrow> nat \<Rightarrow> ptr \<Rightarrow> bcache \<Rightarrow> unit result \<times> bcache" where
  "brelse NBUCKET p b s =
     (if holdingsleep p b s then
        (let s1 = releasesleep b s; lockid = hash NBUCKET (blockno (get s1 b)) in
         if lockid < 0 \<or> int NBUCKET \<le> lockid then (Fault, s1)
         else
           (let s2 = acquire (nat lockid) s1;
                s3 = store b Refcnt (\<lambda>x. x\<lparr>refcnt := refcnt x - 1\<rparr>) s2;
                s4 = (if refcnt (get s3 b) = 0
                      then store b Lastuse (\<lambda>x. x\<lparr>lastuse := ticks s3\<rparr>) s3 else s3)
            in (Return (), release (nat lockid) s4)))
      else (Panic ''brelse'', s))"

definition bpin :: "nat \<Rightarrow> ptr \<Rightarrow> bcache \<Rightarrow> unit result \<times> bcache" where
  "bpin NBUCKET b s =
     (let lockid = hash NBUCKET (blockno (get s b)) in
      if lockid < 0 \<or> int NBUCKET \<le> lockid then (Fault, s)
      else
        (let s1 = acquire (nat lockid) s;
             s2 = store b Refcnt (\<lambda>x. x\<lparr>refcnt := refcnt x + 1\<rparr>) s1
         in (Return (), release (nat lockid) s2)))"

definition bunpin :: "nat \<Rightarrow> ptr \<Rightarrow> bcache \<Rightarrow> unit result \<times> bcache" where
  "bunpin NBUCKET b s =
     (let lockid = hash NBUCKET (blockno (get s b)) in
      if lockid < 0 \<or> int NBUCKET \<le> lockid then (Fault, s)
      else
        (let s1 = acquire (nat lockid) s;
             s2 = store b Refcnt (\<lambda>x. x\<lparr>refcnt := refcnt x - 1\<rparr>) s1
         in (Return (), release (nat lockid) s2)))"

subsection \<open>The lists the pointers describe\<close>

text \<open>
  \<open>chain f a xs e\<close>: starting at pointer \<open>a\<close> and following the field \<open>f\<close>, the nodes
  met are \<open>xs\<close>, in this order, and then \<open>e\<close> is reached.
\<close>

fun chain :: "(ptr \<Rightarrow> ptr) \<Rightarrow> ptr \<Rightarrow> ptr list \<Rightarrow> ptr \<Rightarrow> bool" where
  "chain f a [] e = (a = e)"
| "chain f a (x # xs) e = (a = x \<and> chain f (f x) xs e)"

text \<open>The \<^verbatim>\<open>next\<close> field and the \<^verbatim>\<open>prev\<close> field of every node.\<close>

definition nexts :: "bcache \<Rightarrow> ptr \<Rightarrow> ptr" where
  "nexts s q = nextb (get s q)"

definition prevs :: "bcache \<Rightarrow> ptr \<Rightarrow> ptr" where
  "prevs s q = prevb (get s q)"

text \<open>
  Bucket \<open>i\<close> holds the buffers \<open>xs\<close>, front first: from \<^verbatim>\<open>head[i].next\<close> the \<^verbatim>\<open>next\<close>
  fields lead through \<open>xs\<close> back to the sentinel, and from \<^verbatim>\<open>head[i].prev\<close> the
  \<^verbatim>\<open>prev\<close> fields lead through \<open>xs\<close> backwards to the sentinel.
\<close>

definition dll :: "bcache \<Rightarrow> nat \<Rightarrow> nat list \<Rightarrow> bool" where
  "dll s i xs =
     (chain (nexts s) (nexts s (Head i)) (map Buf xs) (Head i) \<and>
      chain (prevs s) (prevs s (Head i)) (rev (map Buf xs)) (Head i))"

text \<open>
  The buckets of a cache with \<open>NBUCKET\<close> buckets and \<open>NBUF\<close> buffers are the lists \<open>L\<close>:
  bucket \<open>i\<close> holds \<open>L ! i\<close>, and each of the buffers \<open>0, ..., NBUF - 1\<close> occurs once in
  all of \<open>L\<close>.
\<close>

definition buckets :: "nat \<Rightarrow> nat \<Rightarrow> bcache \<Rightarrow> nat list list \<Rightarrow> bool" where
  "buckets NBUCKET NBUF s L =
     (length L = NBUCKET \<and> (\<forall>i<NBUCKET. dll s i (L ! i)) \<and>
      distinct (concat L) \<and> set (concat L) = {..<NBUF})"

text \<open>Every buffer is on the list of the bucket its block number hashes to.\<close>

definition hashed :: "nat \<Rightarrow> bcache \<Rightarrow> nat list list \<Rightarrow> bool" where
  "hashed NBUCKET s L =
     (\<forall>i<NBUCKET. \<forall>j\<in>set (L ! i). hash NBUCKET (blockno (buf s j)) = int i)"

text \<open>The two list pointers of a node.\<close>

definition links :: "bcache \<Rightarrow> ptr \<Rightarrow> ptr \<times> ptr" where
  "links s q = (prevs s q, nexts s q)"

text \<open>\<^verbatim>\<open>b->dev == dev && b->blockno == blockno\<close>\<close>

definition is_block :: "bcache \<Rightarrow> uint \<Rightarrow> uint \<Rightarrow> ptr \<Rightarrow> bool" where
  "is_block s d bn b = (dev (get s b) = d \<and> blockno (get s b) = bn)"

subsection \<open>The bucket spinlocks held along a trace\<close>

text \<open>
  \<open>holds H es\<close>: the bucket spinlocks held after the events \<open>es\<close>, when \<open>H\<close> were held
  before. \<open>discipline H es\<close>: along \<open>es\<close>, never more than two bucket spinlocks are held,
  and each \<^verbatim>\<open>acquiresleep\<close> is called with none held.
\<close>

fun holds :: "nat list \<Rightarrow> event list \<Rightarrow> nat list" where
  "holds H [] = H"
| "holds H (Acquire i # es) = holds (i # H) es"
| "holds H (Release i # es) = holds (remove1 i H) es"
| "holds H (e # es) = holds H es"

fun discipline :: "nat list \<Rightarrow> event list \<Rightarrow> bool" where
  "discipline H [] = True"
| "discipline H (Acquire i # es) = (length (i # H) \<le> 2 \<and> discipline (i # H) es)"
| "discipline H (Release i # es) = discipline (remove1 i H) es"
| "discipline H (AcquireSleep b # es) = (H = [] \<and> discipline H es)"
| "discipline H (e # es) = discipline H es"

subsection \<open>Runs of the cache\<close>

text \<open>
  Static storage before \<^verbatim>\<open>binit\<close>: every field zero. \<^verbatim>\<open>binit\<close> assigns each list pointer
  before any is read, so what stands in the pointer fields here does not matter.
\<close>

definition zero_buf :: buf where
  "zero_buf = \<lparr>valid = 0, dev = 0, blockno = 0, lock = None, refcnt = 0,
     prevb = Head 0, nextb = Head 0, data = [], lastuse = 0\<rparr>"

definition zeroed :: bcache where
  "zeroed = \<lparr>buf = (\<lambda>j. zero_buf), head = (\<lambda>i. zero_buf), ticks = 0,
     disk = (\<lambda>k. []), trace = []\<rparr>"

text \<open>Process \<open>p\<close> reads a block and releases it again.\<close>

definition read_release :: "nat \<Rightarrow> nat \<Rightarrow> uint \<Rightarrow> uint \<Rightarrow> bcache \<Rightarrow> bcache option" where
  "read_release NBUCKET p d bn s =
     (case bread NBUCKET p d bn s of
        Some (Return b, s1) \<Rightarrow>
          (case brelse NBUCKET p b s1 of (Return u, s2) \<Rightarrow> Some s2 | (r, s2) \<Rightarrow> None)
      | r \<Rightarrow> None)"

text \<open>
  A cache of 3 buckets and 2 buffers, right after \<^verbatim>\<open>binit\<close>, when the tick counter has
  reached 16843009 (\<open>0x01010101\<close>); and the same cache after process 7 has read and
  released block 3 and then block 6 of device 1.
\<close>

definition late :: bcache where
  "late = (binit 3 2 zeroed)\<lparr>ticks := 0x01010101\<rparr>"

definition late_used :: "bcache option" where
  "late_used = Option.bind (read_release 3 7 1 3 late) (read_release 3 7 1 6)"

text \<open>Buffer 0 locked by process 7, holding the bytes 1 and 2 of block 5 of device 1.\<close>

definition locked_buf :: bcache where
  "locked_buf =
     upd (Buf 0) (\<lambda>x. x\<lparr>lock := Some 7, dev := 1, blockno := 5, refcnt := 1, data := [1, 2]\<rparr>) zeroed"

text \<open>
  The bucket spinlock the eviction loop keeps between two of its rounds: that of \<^verbatim>\<open>bktid\<close>,
  once \<^verbatim>\<open>bktid\<close> has left its initial value \<^verbatim>\<open>lockid\<close>.
\<close>

definition kept :: "nat \<Rightarrow> nat \<Rightarrow> nat list" where
  "kept lockid bktid = (if bktid = lockid then [] else [bktid])"

text \<open>
  What the eviction loop knows about its candidate: there is none and \<^verbatim>\<open>bktid\<close> is still
  \<^verbatim>\<open>lockid\<close>, or the candidate is a buffer with \<^verbatim>\<open>refcnt == 0\<close> on the list of bucket
  \<^verbatim>\<open>bktid\<close>, which is not the home bucket. \<open>bufs\<close> is the array \<^verbatim>\<open>bcache.buf\<close>.
\<close>

definition cand_ok ::
  "nat \<Rightarrow> nat list list \<Rightarrow> (nat \<Rightarrow> buf) \<Rightarrow> nat \<Rightarrow> ptr option \<Rightarrow> nat \<Rightarrow> bool" where
  "cand_ok NBUCKET L bufs lockid c k =
     ((c = None \<and> k = lockid) \<or>
      (\<exists>j. c = Some (Buf j) \<and> j \<in> set (L ! k) \<and> k < NBUCKET \<and> k \<noteq> lockid \<and>
           refcnt (bufs j) = 0))"

text \<open>The cache \<open>late\<close> after process 7 has read and released block 3 of device 1.\<close>

definition cached_once :: bcache where
  "cached_once = (case read_release 3 7 1 3 late of Some s \<Rightarrow> s | None \<Rightarrow> late)"

text \<open>The cache \<open>late\<close> while process 7 holds block 3 of device 1, which it has read.\<close>

definition reading :: bcache where
  "reading = (case bread 3 7 1 3 late of Some (r, s) \<Rightarrow> s | None \<Rightarrow> late)"

text \<open>The fields of a buffer other than its two list pointers.\<close>

definition payload :: "buf \<Rightarrow> int \<times> uint \<times> uint \<times> nat option \<times> uint \<times> uchar list \<times> uint" where
  "payload x = (valid x, dev x, blockno x, lock x, refcnt x, data x, lastuse x)"

section \<open>Properties\<close>

lemma memset_uint_1: "memset_uint 1 = 0x01010101"
  by (simp add: memset_uint_def)

subsection \<open>The store\<close>

lemma get_upd: "get (upd q f s) r = (if r = q then f (get s q) else get s r)"
  by (cases q; cases r) auto

lemma upd_other [simp]:
  "trace (upd q f s) = trace s" "ticks (upd q f s) = ticks s" "disk (upd q f s) = disk s"
  by (cases q; simp)+

lemma get_trace_update [simp]: "get (s\<lparr>trace := t\<rparr>) = get s"
  by (rule ext, rename_tac q, case_tac q) simp_all

lemma get_store: "get (store q fld f s) r = (if r = q then f (get s q) else get s r)"
  by (simp add: store_def get_upd)

lemma store_other [simp]:
  "trace (store q fld f s) = trace s @ [Store q fld]" "ticks (store q fld f s) = ticks s"
  "disk (store q fld f s) = disk s"
  by (simp_all add: store_def)

lemma get_acquire [simp]: "get (acquire i s) = get s"
  by (rule ext, rename_tac q, case_tac q) (simp_all add: acquire_def)

lemma get_release [simp]: "get (release i s) = get s"
  by (rule ext, rename_tac q, case_tac q) (simp_all add: release_def)

lemma fields_acquire [simp]:
  "head (acquire i s) = head s" "buf (acquire i s) = buf s"
  "ticks (acquire i s) = ticks s" "disk (acquire i s) = disk s"
  by (simp_all add: acquire_def)

lemma fields_release [simp]:
  "head (release i s) = head s" "buf (release i s) = buf s"
  "ticks (release i s) = ticks s" "disk (release i s) = disk s"
  by (simp_all add: release_def)

lemma trace_acquire [simp]: "trace (acquire i s) = trace s @ [Acquire i]"
  by (simp add: acquire_def)

lemma trace_release [simp]: "trace (release i s) = trace s @ [Release i]"
  by (simp add: release_def)

subsection \<open>Chains and the loops that walk them\<close>

lemma chain_append:
  "chain f a (xs @ ys) e = (\<exists>m. chain f a xs m \<and> chain f m ys e)"
  by (induction xs arbitrary: a) auto

lemma chain_upd: "u \<notin> set xs \<Longrightarrow> chain (f(u := v)) a xs e = chain f a xs e"
  by (induction xs arbitrary: a) auto

lemma chain_cong: "(\<And>x. x \<in> set xs \<Longrightarrow> f x = g x) \<Longrightarrow> chain f a xs e = chain g a xs e"
  by (induction xs arbitrary: a) auto

lemma chain_unique:
  "chain f a xs e \<Longrightarrow> chain f a ys e \<Longrightarrow> e \<notin> set xs \<Longrightarrow> e \<notin> set ys \<Longrightarrow> xs = ys"
proof (induction xs arbitrary: a ys)
  case Nil
  then show ?case by (cases ys) auto
next
  case (Cons x xs)
  then show ?case by (cases ys) auto
qed

text \<open>On a list that comes back to its sentinel both loops end, having met its nodes in order.\<close>

lemma find_cached_chain:
  "chain (nexts s) b xs e \<Longrightarrow> e \<notin> set xs \<Longrightarrow>
   find_cached s e d bn b = Some (find (is_block s d bn) xs)"
proof (induction xs arbitrary: b)
  case Nil
  then show ?case by (simp add: find_cached.simps)
next
  case (Cons x xs)
  then have bx: "b = x" "x \<noteq> e"
    and rest0: "chain (nexts s) (nexts s x) xs e" "e \<notin> set xs"
    by auto
  have rest: "chain (nexts s) (nextb (get s x)) xs e" "e \<notin> set xs"
    using rest0 unfolding nexts_def[of s x] .
  have "find_cached s e d bn b =
      (if is_block s d bn x then Some (Some x) else find_cached s e d bn (nextb (get s x)))"
    by (subst find_cached.simps) (simp add: is_block_def bx)
  then show ?case
    by (simp add: Cons.IH[OF rest])
qed

lemma scan_chain:
  "chain (prevs s) b xs e \<Longrightarrow> e \<notin> set xs \<Longrightarrow>
   scan s e b acc = Some (fold (consider_buf s) xs acc)"
proof (induction xs arbitrary: b acc)
  case Nil
  then show ?case by (simp add: scan.simps)
next
  case (Cons x xs)
  then have "b = x" "x \<noteq> e"
    and rest0: "chain (prevs s) (prevs s x) xs e" "e \<notin> set xs"
    by auto
  have rest: "chain (prevs s) (prevb (get s x)) xs e" "e \<notin> set xs"
    using rest0 unfolding prevs_def[of s x] .
  from \<open>b = x\<close> \<open>x \<noteq> e\<close> show ?case
    by (subst scan.simps) (simp add: Cons.IH[OF rest])
qed

lemma dll_find_cached:
  "dll s i xs \<Longrightarrow>
   find_cached s (Head i) d bn (nextb (head s i)) = Some (find (is_block s d bn) (map Buf xs))"
  using find_cached_chain[of s "nexts s (Head i)" "map Buf xs" "Head i" d bn]
  by (auto simp: dll_def nexts_def)

lemma dll_scan:
  "dll s i xs \<Longrightarrow>
   scan s (Head i) (prevb (head s i)) acc = Some (fold (consider_buf s) (rev (map Buf xs)) acc)"
  using scan_chain[of s "prevs s (Head i)" "rev (map Buf xs)" "Head i" acc]
  by (auto simp: dll_def prevs_def)

text \<open>The pointers say which list a bucket holds.\<close>

lemma dll_unique: "dll s i xs \<Longrightarrow> dll s i ys \<Longrightarrow> xs = ys"
proof -
  assume "dll s i xs" "dll s i ys"
  then have "map Buf xs = map Buf ys"
    unfolding dll_def by (intro chain_unique[where e = "Head i"]) auto
  then show ?thesis by (simp add: inj_on_def)
qed

subsection \<open>The spinlocks bget holds\<close>



lemma acquire_alt: "acquire i s = s\<lparr>trace := trace s @ [Acquire i]\<rparr>"
  by (simp add: acquire_def)

lemma release_alt: "release i s = s\<lparr>trace := trace s @ [Release i]\<rparr>"
  by (simp add: release_def)

lemma eviction_scan_trace:
  "eviction_scan NBUCKET lockid i (maxtick, cozybuf, bktid) s = Some ((maxtick', cozybuf', bktid'), s') \<Longrightarrow>
   \<exists>es. s' = s\<lparr>trace := trace s @ es\<rparr> \<and> discipline (kept lockid bktid) es \<and>
        holds (kept lockid bktid) es = kept lockid bktid'"
proof (induction NBUCKET lockid i "(maxtick, cozybuf, bktid)" s arbitrary: maxtick cozybuf bktid
    rule: eviction_scan.induct)
  case (1 NBUCKET lockid i maxtick cozybuf bktid s)
  show ?case
  proof (cases "i < NBUCKET")
    case False
    with "1.prems" have "s' = s" "bktid' = bktid" by auto
    then show ?thesis by (intro exI[of _ "[]"]) simp
  next
    case inb: True
    show ?thesis
    proof (cases "i = lockid")
      case True
      with inb "1.prems" have "eviction_scan NBUCKET lockid (Suc i) (maxtick, cozybuf, bktid) s
          = Some ((maxtick', cozybuf', bktid'), s')"
        by simp
      from "1.hyps"(1)[OF inb True this] show ?thesis .
    next
      case nl: False
      let ?s1 = "acquire i s"
      from inb nl "1.prems" obtain m c ch where
        sc: "scan ?s1 (Head i) (prevb (head ?s1 i)) (maxtick, cozybuf, False) = Some (m, c, ch)"
        by (auto simp: Let_def split: option.splits)
      show ?thesis
      proof (cases ch)
        case True
        let ?s2 = "if bktid \<noteq> lockid then release bktid ?s1 else ?s1"
        from inb nl "1.prems" sc True have
          "eviction_scan NBUCKET lockid (Suc i) (m, c, i) ?s2 = Some ((maxtick', cozybuf', bktid'), s')"
          by (simp add: Let_def)
        from "1.hyps"(2)[OF inb nl refl sc refl refl True this]
        obtain es where es: "s' = ?s2\<lparr>trace := trace ?s2 @ es\<rparr>" "discipline (kept lockid i) es"
          "holds (kept lockid i) es = kept lockid bktid'"
          by blast
        show ?thesis
        proof (cases "bktid = lockid")
          case True
          with es nl show ?thesis
            by (intro exI[of _ "Acquire i # es"]) (simp add: acquire_def kept_def)
        next
          case False
          with es nl show ?thesis
            by (intro exI[of _ "Acquire i # Release bktid # es"])
               (auto simp add: acquire_def release_def kept_def)
        qed
      next
        case False
        let ?s2 = "release i ?s1"
        from inb nl "1.prems" sc False have
          "eviction_scan NBUCKET lockid (Suc i) (m, c, bktid) ?s2 = Some ((maxtick', cozybuf', bktid'), s')"
          by (simp add: Let_def)
        from "1.hyps"(3)[OF inb nl refl sc refl refl False this]
        obtain es where es: "s' = ?s2\<lparr>trace := trace ?s2 @ es\<rparr>" "discipline (kept lockid bktid) es"
          "holds (kept lockid bktid) es = kept lockid bktid'"
          by blast
        then show ?thesis
          by (intro exI[of _ "Acquire i # Release i # es"])
             (auto simp add: acquire_def release_def kept_def)
      qed
    qed
  qed
qed



lemma trace_unlink [simp]: "trace (unlink c s) = trace s"
  by (simp add: unlink_def Let_def)

lemma trace_push_front [simp]: "trace (push_front h c s) = trace s"
  by (simp add: push_front_def Let_def)




subsection \<open>Pointer fields under the assignments\<close>

declare upd.simps [simp del]

declare get.simps [simp del]

lemma nexts_upd: "nexts (upd q f s) = (nexts s)(q := nextb (f (get s q)))"
  by (rule ext) (simp add: nexts_def get_upd)

lemma prevs_upd: "prevs (upd q f s) = (prevs s)(q := prevb (f (get s q)))"
  by (rule ext) (simp add: prevs_def get_upd)

lemma nexts_trace [simp]: "nexts (s\<lparr>trace := t\<rparr>) = nexts s"
  by (rule ext) (simp add: nexts_def)

lemma prevs_trace [simp]: "prevs (s\<lparr>trace := t\<rparr>) = prevs s"
  by (rule ext) (simp add: prevs_def)

lemma dll_trace [simp]: "dll (s\<lparr>trace := t\<rparr>) = dll s"
  by (intro ext) (simp add: dll_def)

lemma dll_acquire [simp]: "dll (acquire i s) = dll s"
  by (simp add: acquire_def)

lemma dll_release [simp]: "dll (release i s) = dll s"
  by (simp add: release_def)


text \<open>What a scan of the nodes \<open>ps\<close> leaves: nothing new, or a node of \<open>ps\<close> with \<^verbatim>\<open>refcnt == 0\<close>.\<close>

lemma fold_consider_buf:
  "fold (consider_buf s) ps (m, c, f) = (m', c', f') \<Longrightarrow>
   (m' = m \<and> c' = c \<and> f' = f) \<or>
   (f' \<and> m' < m \<and> (\<exists>q\<in>set ps. c' = Some q \<and> refcnt (get s q) = 0 \<and> lastuse (get s q) = m'))"
proof (induction ps arbitrary: m c f)
  case Nil
  then show ?case by simp
next
  case (Cons q ps)
  show ?case
  proof (cases "refcnt (get s q) = 0 \<and> lastuse (get s q) < m")
    case True
    with Cons.prems have "fold (consider_buf s) ps (lastuse (get s q), Some q, True) = (m', c', f')"
      by simp
    from Cons.IH[OF this] True show ?thesis
      by auto
  next
    case False
    with Cons.prems have "fold (consider_buf s) ps (m, c, f) = (m', c', f')"
      by auto
    from Cons.IH[OF this] show ?thesis
      by auto
  qed
qed


lemma eviction_scan_buckets:
  "\<forall>i<NBUCKET. dll s i (L ! i) \<Longrightarrow> cand_ok NBUCKET L (buf s) lockid cozybuf bktid \<Longrightarrow>
    \<exists>maxtick' cozybuf' bktid' s'.
      eviction_scan NBUCKET lockid i (maxtick, cozybuf, bktid) s = Some ((maxtick', cozybuf', bktid'), s') \<and>
      cand_ok NBUCKET L (buf s) lockid cozybuf' bktid'"
proof (induction NBUCKET lockid i "(maxtick, cozybuf, bktid)" s arbitrary: maxtick cozybuf bktid
    rule: eviction_scan.induct)
  case (1 NBUCKET lockid i maxtick cozybuf bktid s)
  show ?case
  proof (cases "i < NBUCKET")
    case False
    with "1.prems" show ?thesis by simp
  next
    case inb: True
    show ?thesis
    proof (cases "i = lockid")
      case True
      from "1.hyps"(1)[OF inb True "1.prems"] inb True show ?thesis
        by simp
    next
      case nl: False
      let ?s1 = "acquire i s"
      from "1.prems"(1) inb have d: "dll ?s1 i (L ! i)"
        by simp
      obtain m c ch where f: "fold (consider_buf ?s1) (rev (map Buf (L ! i))) (maxtick, cozybuf, False) = (m, c, ch)"
        by (metis prod_cases3)
      with dll_scan[OF d] have
        sc: "scan ?s1 (Head i) (prevb (head ?s1 i)) (maxtick, cozybuf, False) = Some (m, c, ch)"
        by simp
      show ?thesis
      proof (cases ch)
        case True
        let ?s2 = "if bktid \<noteq> lockid then release bktid ?s1 else ?s1"
        from fold_consider_buf[OF f] True inb nl have ok: "cand_ok NBUCKET L (buf ?s2) lockid c i"
          by (auto simp: cand_ok_def get.simps)
        from "1.prems"(1) have wf: "\<forall>i<NBUCKET. dll ?s2 i (L ! i)"
          by simp
        have bs: "buf ?s2 = buf s"
          by simp
        have "eviction_scan NBUCKET lockid i (maxtick, cozybuf, bktid) s
            = eviction_scan NBUCKET lockid (Suc i) (m, c, i) ?s2"
          using inb nl sc True
          by (subst eviction_scan.simps) (simp add: Let_def del: eviction_scan.simps)
        with "1.hyps"(2)[OF inb nl refl sc refl refl True wf ok] show ?thesis
          unfolding bs by simp
      next
        case False
        let ?s2 = "release i ?s1"
        from fold_consider_buf[OF f] False "1.prems"(2) have ok: "cand_ok NBUCKET L (buf ?s2) lockid c bktid"
          by auto
        from "1.prems"(1) have wf: "\<forall>i<NBUCKET. dll ?s2 i (L ! i)"
          by simp
        have bs: "buf ?s2 = buf s"
          by simp
        have "eviction_scan NBUCKET lockid i (maxtick, cozybuf, bktid) s
            = eviction_scan NBUCKET lockid (Suc i) (m, c, bktid) ?s2"
          using inb nl sc False
          by (subst eviction_scan.simps) (simp add: Let_def del: eviction_scan.simps)
        with "1.hyps"(3)[OF inb nl refl sc refl refl False wf ok] show ?thesis
          unfolding bs by simp
      qed
    qed
  qed
qed



subsection \<open>Taking a node out of a list and putting one in\<close>

lemma chain_remove_aux:
  "chain f (f a) (P @ c # Q) e \<Longrightarrow> distinct (a # P @ c # Q) \<Longrightarrow>
   g (last (a # P)) = f c \<Longrightarrow> (\<And>x. x \<noteq> last (a # P) \<Longrightarrow> g x = f x) \<Longrightarrow>
   chain g (g a) (P @ Q) e"
proof (induction P arbitrary: a)
  case Nil
  then have 1: "chain f (f c) Q e" "a \<notin> set Q" "g a = f c"
    by auto
  have "g x = f x" if "x \<in> set Q" for x
    using that 1(2) Nil.prems(4)[of x] by auto
  with 1 show ?case
    using chain_cong[of Q g f "f c" e] by simp
next
  case (Cons x P)
  from Cons.prems(1,2) have 1: "chain f (f x) (P @ c # Q) e" "distinct (x # P @ c # Q)" "f a = x"
    by auto
  from Cons.prems(3) have 4: "g (last (x # P)) = f c"
    by simp
  from Cons.prems(4) have 5: "\<And>y. y \<noteq> last (x # P) \<Longrightarrow> g y = f y"
    by simp
  have "last (x # P) \<in> set (x # P)"
    by (rule last_in_set) simp
  with Cons.prems(2) have 6: "a \<noteq> last (x # P)"
    by auto
  from Cons.IH[OF 1(1,2) 4 5] 1(3) 5[OF 6] show ?case
    by simp
qed

lemma chain_remove:
  "chain f (f a) (P @ c # Q) e \<Longrightarrow> distinct (a # P @ c # Q) \<Longrightarrow>
   chain (f(last (a # P) := f c)) ((f(last (a # P) := f c)) a) (P @ Q) e"
  by (rule chain_remove_aux) simp_all

lemma chain_snoc_aux:
  "chain f (f a) zs e \<Longrightarrow> distinct (a # zs) \<Longrightarrow> c \<notin> set (a # zs) \<Longrightarrow>
   g (last (a # zs)) = c \<Longrightarrow> g c = e \<Longrightarrow> (\<And>x. x \<noteq> last (a # zs) \<Longrightarrow> x \<noteq> c \<Longrightarrow> g x = f x) \<Longrightarrow>
   chain g (g a) (zs @ [c]) e"
proof (induction zs arbitrary: a)
  case Nil
  then show ?case by auto
next
  case (Cons x zs)
  from Cons.prems(1,2,3) have 1: "chain f (f x) zs e" "distinct (x # zs)" "c \<notin> set (x # zs)"
    "f a = x" "a \<noteq> c"
    by auto
  from Cons.prems(4) have 4: "g (last (x # zs)) = c"
    by simp
  from Cons.prems(6) have 6: "\<And>y. y \<noteq> last (x # zs) \<Longrightarrow> y \<noteq> c \<Longrightarrow> g y = f y"
    by simp
  have "last (x # zs) \<in> set (x # zs)"
    by (rule last_in_set) simp
  with Cons.prems(2) have 7: "a \<noteq> last (x # zs)"
    by auto
  from Cons.IH[OF 1(1,2,3) 4 Cons.prems(5) 6] 1(4) 6[OF 7 1(5)] show ?case
    by simp
qed

lemma chain_snoc:
  "chain f (f a) zs e \<Longrightarrow> distinct (a # zs) \<Longrightarrow> c \<notin> set (a # zs) \<Longrightarrow>
   chain (f(c := e, last (a # zs) := c)) ((f(c := e, last (a # zs) := c)) a) (zs @ [c]) e"
proof (rule chain_snoc_aux)
  assume "c \<notin> set (a # zs)"
  moreover have "last (a # zs) \<in> set (a # zs)"
    by (rule last_in_set) simp
  ultimately have "c \<noteq> last (a # zs)"
    by metis
  then show "(f(c := e, last (a # zs) := c)) c = e"
    by simp
qed simp_all


lemma chain_push:
  "chain f (f a) ys e \<Longrightarrow> c \<notin> set ys \<Longrightarrow> a \<notin> set ys \<Longrightarrow> c \<noteq> a \<Longrightarrow>
   chain (f(c := f a, a := c)) ((f(c := f a, a := c)) a) (c # ys) e"
  by (simp add: chain_upd)

lemma chain_succ: "chain f a (P @ c # Q) e \<Longrightarrow> f c = hd (Q @ [e])"
  by (cases Q) (auto simp: chain_append)

lemma hd_snoc_rev: "hd (rev P @ [a]) = last (a # P)"
  by (cases P rule: rev_cases) auto

lemma hd_snoc_last: "hd (Q @ [a]) = last (a # rev Q)"
  by (cases Q) auto

lemma nexts_upd_keep: "(\<And>x. nextb (f x) = nextb x) \<Longrightarrow> nexts (upd q f s) = nexts s"
  by (rule ext) (simp add: nexts_def get_upd)

lemma prevs_upd_keep: "(\<And>x. prevb (f x) = prevb x) \<Longrightarrow> prevs (upd q f s) = prevs s"
  by (rule ext) (simp add: prevs_def get_upd)

lemma nexts_upd_nextb: "nexts (upd q (\<lambda>x. x\<lparr>nextb := v\<rparr>) s) = (nexts s)(q := v)"
  by (rule ext) (simp add: nexts_def get_upd)

lemma prevs_upd_prevb: "prevs (upd q (\<lambda>x. x\<lparr>prevb := v\<rparr>) s) = (prevs s)(q := v)"
  by (rule ext) (simp add: prevs_def get_upd)

lemma nextb_head: "nextb (head s h) = nexts s (Head h)"
  by (simp add: nexts_def get.simps)

lemma prevb_head: "prevb (head s h) = prevs s (Head h)"
  by (simp add: prevs_def get.simps)


lemma nexts_unlink: "nexts (unlink c s) = (nexts s)(prevs s c := nexts s c)"
  by (simp add: unlink_def Let_def nexts_upd_keep nexts_upd_nextb)
     (simp add: nexts_def prevs_def)

lemma prevs_unlink:
  "prevs s c \<noteq> c \<Longrightarrow> prevs (unlink c s) = (prevs s)(nexts s c := prevs s c)"
  by (simp add: unlink_def Let_def prevs_upd_keep prevs_upd_prevb get_upd)
     (simp add: nexts_def prevs_def)

lemma nexts_push_front: "nexts (push_front h c s) = (nexts s)(c := nexts s (Head h), Head h := c)"
  by (simp add: push_front_def Let_def nextb_head nexts_upd_keep nexts_upd_nextb)

lemma prevs_push_front:
  "c \<noteq> Head h \<Longrightarrow> prevs (push_front h c s) = (prevs s)(c := Head h, nexts s (Head h) := c)"
  by (simp add: push_front_def Let_def nextb_head nexts_upd_keep nexts_upd_nextb
      prevs_upd_keep prevs_upd_prevb)

subsection \<open>Buckets under unlinking and pushing\<close>

lemma inj_Buf: "inj Buf"
  by (simp add: inj_on_def)

lemma distinct_ring: "distinct xs \<Longrightarrow> distinct (Head k # map Buf xs)"
  by (auto simp: distinct_map inj_on_def)

lemma dll_next_of:
  assumes "dll s k (P @ j # Q)"
  shows "nexts s (Buf j) = last (Head k # rev (map Buf Q))"
proof -
  from assms have "chain (nexts s) (nexts s (Head k)) (map Buf P @ Buf j # map Buf Q) (Head k)"
    by (simp add: dll_def)
  from chain_succ[OF this] show ?thesis
    by (simp add: hd_snoc_last)
qed

lemma dll_prev_of:
  assumes "dll s k (P @ j # Q)"
  shows "prevs s (Buf j) = last (Head k # map Buf P)"
proof -
  from assms have "chain (prevs s) (prevs s (Head k)) (rev (map Buf Q) @ Buf j # rev (map Buf P)) (Head k)"
    by (simp add: dll_def)
  from chain_succ[OF this] show ?thesis
    by (simp add: hd_snoc_rev)
qed

lemma last_ring_in: "last (Head k # map Buf P) \<in> insert (Head k) (Buf ` set P)"
  using last_in_set[of "Head k # map Buf P"] by auto

lemma dll_prev_not_self:
  assumes "dll s k (P @ j # Q)" "distinct (P @ j # Q)"
  shows "prevs s (Buf j) \<noteq> Buf j"
  using dll_prev_of[OF assms(1)] last_ring_in[of k P] assms(2) by auto

lemma dll_unlink_donor:
  assumes d: "dll s k (P @ j # Q)" and dist: "distinct (P @ j # Q)"
  shows "dll (unlink (Buf j) s) k (P @ Q)"
proof -
  let ?N = "nexts s" and ?V = "prevs s"
  have n: "chain ?N (?N (Head k)) (map Buf P @ Buf j # map Buf Q) (Head k)"
    and v: "chain ?V (?V (Head k)) (rev (map Buf Q) @ Buf j # rev (map Buf P)) (Head k)"
    using d by (simp_all add: dll_def)
  have dn: "distinct (Head k # map Buf P @ Buf j # map Buf Q)"
    using distinct_ring[OF dist, of k] by simp
  have dv: "distinct (Head k # rev (map Buf Q) @ Buf j # rev (map Buf P))"
    using dn by auto
  from chain_remove[OF n dn] have
    "chain (nexts (unlink (Buf j) s)) (nexts (unlink (Buf j) s) (Head k)) (map Buf (P @ Q)) (Head k)"
    by (simp add: nexts_unlink dll_prev_of[OF d])
  moreover from chain_remove[OF v dv] have
    "chain (prevs (unlink (Buf j) s)) (prevs (unlink (Buf j) s) (Head k)) (rev (map Buf (P @ Q))) (Head k)"
    by (simp add: prevs_unlink[OF dll_prev_not_self[OF d dist]] dll_next_of[OF d])
  ultimately show ?thesis
    by (simp add: dll_def)
qed

lemma dll_upd_away:
  assumes "dll s i ys" and "\<And>q. q \<in> insert (Head i) (Buf ` set ys) \<Longrightarrow> nexts s' q = nexts s q"
    and "\<And>q. q \<in> insert (Head i) (Buf ` set ys) \<Longrightarrow> prevs s' q = prevs s q"
  shows "dll s' i ys"
proof -
  have "chain (nexts s') (nexts s (Head i)) (map Buf ys) (Head i)
      = chain (nexts s) (nexts s (Head i)) (map Buf ys) (Head i)"
    by (rule chain_cong) (use assms(2) in auto)
  moreover have "chain (prevs s') (prevs s (Head i)) (rev (map Buf ys)) (Head i)
      = chain (prevs s) (prevs s (Head i)) (rev (map Buf ys)) (Head i)"
    by (rule chain_cong) (use assms(3) in auto)
  ultimately show ?thesis
    using assms by (simp add: dll_def)
qed

lemma dll_unlink_other:
  assumes d: "dll s k (P @ j # Q)" and dist: "distinct (P @ j # Q)"
    and o: "dll s i ys" and ne: "i \<noteq> k" and disj: "set ys \<inter> set (P @ j # Q) = {}"
  shows "dll (unlink (Buf j) s) i ys"
proof (rule dll_upd_away[OF o])
  fix q assume q: "q \<in> insert (Head i) (Buf ` set ys)"
  have pc: "prevs s (Buf j) \<in> insert (Head k) (Buf ` set P)"
    using dll_prev_of[OF d] last_ring_in[of k P] by simp
  have nc: "nexts s (Buf j) \<in> insert (Head k) (Buf ` set Q)"
    using dll_next_of[OF d] last_ring_in[of k "rev Q"] by (simp add: rev_map)
  from q pc ne disj show "nexts (unlink (Buf j) s) q = nexts s q"
    by (auto simp: nexts_unlink)
  from q nc ne disj show "prevs (unlink (Buf j) s) q = prevs s q"
    by (auto simp: prevs_unlink[OF dll_prev_not_self[OF d dist]])
qed

lemma dll_first:
  assumes "dll s h ys"
  shows "nexts s (Head h) = last (Head h # rev (map Buf ys))"
  using assms by (cases ys) (auto simp: dll_def)

lemma dll_push_front_home:
  assumes d: "dll s h ys" and dist: "distinct ys" and nin: "j \<notin> set ys"
  shows "dll (push_front h (Buf j) s) h (j # ys)"
proof -
  let ?N = "nexts s" and ?V = "prevs s"
  have n: "chain ?N (?N (Head h)) (map Buf ys) (Head h)"
    and v: "chain ?V (?V (Head h)) (rev (map Buf ys)) (Head h)"
    using d by (simp_all add: dll_def)
  have dv: "distinct (Head h # rev (map Buf ys))"
    using distinct_ring[OF dist, of h] by simp
  have cn: "Buf j \<notin> set (Head h # rev (map Buf ys))"
    using nin by auto
  from chain_push[OF n, of "Buf j"] nin have
    "chain (nexts (push_front h (Buf j) s)) (nexts (push_front h (Buf j) s) (Head h))
       (map Buf (j # ys)) (Head h)"
    by (auto simp: nexts_push_front)
  moreover from chain_snoc[OF v dv cn] have
    "chain (prevs (push_front h (Buf j) s)) (prevs (push_front h (Buf j) s) (Head h))
       (rev (map Buf (j # ys))) (Head h)"
    by (simp add: prevs_push_front dll_first[OF d])
  ultimately show ?thesis
    by (simp add: dll_def)
qed

lemma dll_push_front_other:
  assumes d: "dll s h ys" and o: "dll s i zs" and ne: "i \<noteq> h"
    and nin: "j \<notin> set zs" and disj: "set zs \<inter> set ys = {}"
  shows "dll (push_front h (Buf j) s) i zs"
proof (rule dll_upd_away[OF o])
  fix q assume q: "q \<in> insert (Head i) (Buf ` set zs)"
  have f: "nexts s (Head h) \<in> insert (Head h) (Buf ` set ys)"
    using dll_first[OF d] last_ring_in[of h "rev ys"] by (simp add: rev_map)
  from q ne nin show "nexts (push_front h (Buf j) s) q = nexts s q"
    by (auto simp: nexts_push_front)
  from q f ne nin disj show "prevs (push_front h (Buf j) s) q = prevs s q"
    by (auto simp: prevs_push_front)
qed

subsection \<open>Each buffer on one list\<close>

lemma set_concat_nth: "set (concat L) = (\<Union>i<length L. set (L ! i))"
proof -
  have "set L = (!) L ` {..<length L}"
    by (auto simp: set_conv_nth)
  then have "(\<Union>xs\<in>set L. set xs) = (\<Union>i<length L. set (L ! i))"
    by (simp only: image_image)
  then show ?thesis
    by (simp only: set_concat)
qed

lemma distinct_concat_nth:
  "distinct (concat L) \<longleftrightarrow>
     (\<forall>i<length L. distinct (L ! i)) \<and>
     (\<forall>i<length L. \<forall>k<length L. i \<noteq> k \<longrightarrow> set (L ! i) \<inter> set (L ! k) = {})"
proof (induction L)
  case Nil
  then show ?case by simp
next
  case (Cons x L)
  have d: "set x \<inter> set (concat L) = {} \<longleftrightarrow> (\<forall>k<length L. set x \<inter> set (L ! k) = {})"
    unfolding set_concat_nth by auto
  have c: "(\<forall>k<length L. set x \<inter> set (L ! k) = {}) \<longleftrightarrow> (\<forall>k<length L. set (L ! k) \<inter> set x = {})"
    by (simp add: Int_commute)
  let ?D = "\<lambda>M. \<forall>i<length M. distinct (M ! i)"
  let ?J = "\<lambda>M. \<forall>i<length M. \<forall>k<length M. i \<noteq> k \<longrightarrow> set (M ! i) \<inter> set (M ! k) = {}"
  have 1: "?D (x # L) \<longleftrightarrow> distinct x \<and> ?D L"
    by (simp add: All_less_Suc2)
  have 2: "?J (x # L) \<longleftrightarrow> (\<forall>k<length L. set x \<inter> set (L ! k) = {}) \<and> ?J L"
  proof
    assume j: "?J (x # L)"
    have "set x \<inter> set (L ! k) = {}" if "k < length L" for k
      using j[rule_format, of 0 "Suc k"] that by simp
    moreover have "set (L ! i) \<inter> set (L ! k) = {}" if "i < length L" "k < length L" "i \<noteq> k" for i k
      using j[rule_format, of "Suc i" "Suc k"] that by simp
    ultimately show "(\<forall>k<length L. set x \<inter> set (L ! k) = {}) \<and> ?J L"
      by blast
  next
    assume r: "(\<forall>k<length L. set x \<inter> set (L ! k) = {}) \<and> ?J L"
    show "?J (x # L)"
    proof (intro allI impI)
      fix i k assume "i < length (x # L)" "k < length (x # L)" "i \<noteq> k"
      with r c show "set ((x # L) ! i) \<inter> set ((x # L) ! k) = {}"
        by (cases i; cases k) auto
    qed
  qed
  have "distinct (concat (x # L)) \<longleftrightarrow> distinct x \<and> distinct (concat L) \<and> set x \<inter> set (concat L) = {}"
    by simp
  also have "\<dots> \<longleftrightarrow> distinct x \<and> (?D L \<and> ?J L) \<and> (\<forall>k<length L. set x \<inter> set (L ! k) = {})"
    by (simp only: Cons.IH d)
  also have "\<dots> \<longleftrightarrow> ?D (x # L) \<and> ?J (x # L)"
    unfolding 1 2 by blast
  finally show ?case .
qed

lemma buckets_alt:
  "buckets NBUCKET NBUF s L \<longleftrightarrow>
     length L = NBUCKET \<and> (\<forall>i<NBUCKET. dll s i (L ! i)) \<and>
     (\<forall>i<NBUCKET. distinct (L ! i)) \<and>
     (\<forall>i<NBUCKET. \<forall>k<NBUCKET. i \<noteq> k \<longrightarrow> set (L ! i) \<inter> set (L ! k) = {}) \<and>
     (\<Union>i<NBUCKET. set (L ! i)) = {..<NBUF}"
proof (cases "length L = NBUCKET")
  case True
  show ?thesis
    unfolding buckets_def distinct_concat_nth set_concat_nth True
    by (rule iffI; (elim conjE)?; intro conjI; assumption?; rule refl)
next
  case False
  then show ?thesis
    by (simp add: buckets_def)
qed

lemma buckets_owner:
  assumes "buckets NBUCKET NBUF s L" and "j < NBUF"
  shows "\<exists>!i. i < NBUCKET \<and> j \<in> set (L ! i)"
proof -
  from assms have "j \<in> (\<Union>i<NBUCKET. set (L ! i))"
    by (simp add: buckets_alt)
  then obtain i where i: "i < NBUCKET" "j \<in> set (L ! i)"
    by auto
  moreover have "k = i" if "k < NBUCKET" "j \<in> set (L ! k)" for k
  proof (rule ccontr)
    assume "k \<noteq> i"
    with assms(1) that(1) i(1) have "set (L ! k) \<inter> set (L ! i) = {}"
      by (simp add: buckets_alt)
    with that(2) i(2) show False by auto
  qed
  ultimately show ?thesis by auto
qed

lemma dll_same_links:
  "nexts s' = nexts s \<Longrightarrow> prevs s' = prevs s \<Longrightarrow> dll s' i xs = dll s i xs"
  by (simp add: dll_def)

lemma buckets_same_links:
  "nexts s' = nexts s \<Longrightarrow> prevs s' = prevs s \<Longrightarrow> buckets NBUCKET NBUF s' L = buckets NBUCKET NBUF s L"
  by (simp add: buckets_def dll_def)

lemma buckets_relink:
  assumes b: "buckets NBUCKET NBUF s L" and k: "k < NBUCKET" and h: "h < NBUCKET" and kh: "k \<noteq> h"
    and j: "j \<in> set (L ! k)"
  shows "buckets NBUCKET NBUF (push_front h (Buf j) (unlink (Buf j) s))
           (L[k := remove1 j (L ! k), h := j # L ! h])"
proof -
  from b have len: "length L = NBUCKET"
    and dl: "\<And>i. i < NBUCKET \<Longrightarrow> dll s i (L ! i)"
    and di: "\<And>i. i < NBUCKET \<Longrightarrow> distinct (L ! i)"
    and dj: "\<And>i m. i < NBUCKET \<Longrightarrow> m < NBUCKET \<Longrightarrow> i \<noteq> m \<Longrightarrow> set (L ! i) \<inter> set (L ! m) = {}"
    and un: "(\<Union>i<NBUCKET. set (L ! i)) = {..<NBUF}"
    by (simp_all add: buckets_alt)
  from j obtain P Q where pq: "L ! k = P @ j # Q"
    by (auto dest: split_list)
  from di[OF k] pq have dpq: "distinct (P @ j # Q)" and rm: "remove1 j (L ! k) = P @ Q"
    by (simp_all add: remove1_append)
  let ?s1 = "unlink (Buf j) s"
  let ?s2 = "push_front h (Buf j) ?s1"
  let ?L' = "L[k := remove1 j (L ! k), h := j # L ! h]"
  have jh: "j \<notin> set (L ! h)"
    using dj[OF k h kh] j by auto
  have d1k: "dll ?s1 k (P @ Q)"
    using dll_unlink_donor[OF dl[OF k, unfolded pq] dpq] .
  have d1o: "dll ?s1 i (L ! i)" if "i < NBUCKET" "i \<noteq> k" for i
    using dll_unlink_other[OF dl[OF k, unfolded pq] dpq dl[OF that(1)] that(2)]
      dj[OF that(1) k that(2)] by (simp add: pq)
  have d2h: "dll ?s2 h (j # L ! h)"
    using dll_push_front_home[OF d1o[OF h kh[symmetric]] di[OF h] jh] .
  have d2k: "dll ?s2 k (P @ Q)"
    using dll_push_front_other[OF d1o[OF h kh[symmetric]] d1k kh] dpq dj[OF k h kh]
    by (auto simp: pq)
  have d2o: "dll ?s2 i (L ! i)" if "i < NBUCKET" "i \<noteq> k" "i \<noteq> h" for i
  proof -
    have "j \<notin> set (L ! i)"
      using dj[OF that(1) k that(2)] j by auto
    then show ?thesis
      using dll_push_front_other[OF d1o[OF h kh[symmetric]] d1o[OF that(1,2)] that(3)]
        dj[OF that(1) h that(3)] by simp
  qed
  define L' where "L' = L[k := remove1 j (L ! k), h := j # L ! h]"
  have nth: "L' ! i = (if i = h then j # L ! h else if i = k then P @ Q else L ! i)"
    if "i < NBUCKET" for i
    using that len kh by (simp add: L'_def nth_list_update rm)
  have sk: "set (P @ Q) = set (L ! k) - {j}"
    using dpq by (auto simp: pq)
  have sets: "set (L' ! i) = (if i = h then insert j (set (L ! h))
      else if i = k then set (L ! k) - {j} else set (L ! i))" if "i < NBUCKET" for i
    unfolding nth[OF that] using sk by simp
  have 1: "dll ?s2 i (L' ! i)" if "i < NBUCKET" for i
    unfolding nth[OF that] using that d2h d2k d2o by simp
  have 2: "distinct (L' ! i)" if "i < NBUCKET" for i
    unfolding nth[OF that] using di[OF that] di[OF h] jh dpq by auto
  have 3: "set (L' ! i) \<inter> set (L' ! m) = {}"
    if im: "i < NBUCKET" "m < NBUCKET" "i \<noteq> m" for i m
  proof -
    have a: "set (L ! i) \<inter> set (L ! m) = {}"
      using dj[OF im] .
    have b: "j \<notin> set (L ! i)" if "i \<noteq> k"
      using dj[OF im(1) k that] j by auto
    have c: "j \<notin> set (L ! m)" if "m \<noteq> k"
      using dj[OF im(2) k that] j by auto
    show ?thesis
      unfolding sets[OF im(1)] sets[OF im(2)] using a b c im(3) kh
      by (cases "i = h"; cases "i = k"; cases "m = h"; cases "m = k") auto
  qed
  have 4: "(\<Union>i<NBUCKET. set (L' ! i)) = {..<NBUF}"
  proof -
    have "(\<Union>i<NBUCKET. set (L' ! i)) = (\<Union>i<NBUCKET. set (L ! i))"
    proof (intro set_eqI iffI)
      fix x assume "x \<in> (\<Union>i<NBUCKET. set (L' ! i))"
      then obtain i where i: "i < NBUCKET" "x \<in> set (L' ! i)" by auto
      from i(2) have "x = j \<or> x \<in> set (L ! i)"
        unfolding sets[OF i(1)] by (auto split: if_splits)
      with j k i(1) show "x \<in> (\<Union>i<NBUCKET. set (L ! i))"
        by auto
    next
      fix x assume "x \<in> (\<Union>i<NBUCKET. set (L ! i))"
      then obtain i where i: "i < NBUCKET" "x \<in> set (L ! i)" by auto
      show "x \<in> (\<Union>i<NBUCKET. set (L' ! i))"
      proof (cases "x = j")
        case True
        have "j \<in> set (L' ! h)"
          unfolding sets[OF h] by simp
        with h True show ?thesis by auto
      next
        case False
        with i have "x \<in> set (L' ! i)"
          unfolding sets[OF i(1)] by auto
        with i(1) show ?thesis by auto
      qed
    qed
    with un show ?thesis by simp
  qed
  have "length L' = NBUCKET"
    using len by (simp add: L'_def)
  with 1 2 3 4 have "buckets NBUCKET NBUF ?s2 L'"
    unfolding buckets_alt by blast
  then show ?thesis
    unfolding L'_def .
qed

subsection \<open>The paths through bget\<close>

declare eviction_scan.simps [simp del]

lemma upd_trace: "upd q f (s\<lparr>trace := t\<rparr>) = (upd q f s)\<lparr>trace := t\<rparr>"
  by (cases q) (simp_all add: upd.simps)

lemma head_trace [simp]: "head (s\<lparr>trace := t\<rparr>) = head s"
  by simp

lemma unlink_trace: "unlink c (s\<lparr>trace := t\<rparr>) = (unlink c s)\<lparr>trace := t\<rparr>"
  by (simp add: unlink_def Let_def upd_trace)

lemma push_front_trace: "push_front h c (s\<lparr>trace := t\<rparr>) = (push_front h c s)\<lparr>trace := t\<rparr>"
  by (simp add: push_front_def Let_def upd_trace)

lemma is_block_trace [simp]: "is_block (s\<lparr>trace := t\<rparr>) = is_block s"
  by (intro ext) (simp add: is_block_def)

lemma consider_buf_trace [simp]: "consider_buf (s\<lparr>trace := t\<rparr>) = consider_buf s"
  by (intro ext) auto

lemma hash_index:
  assumes "hash NBUCKET bn = int h" "h < NBUCKET"
  shows "\<not> (hash NBUCKET bn < 0 \<or> int NBUCKET \<le> hash NBUCKET bn)" "nat (hash NBUCKET bn) = h"
  using assms by simp_all

lemma bget_hit:
  assumes d: "dll s h xs" and h: "hash NBUCKET bn = int h" "h < NBUCKET"
    and f: "find (is_block s d bn) (map Buf xs) = Some b"
  shows "bget NBUCKET p d bn s =
    Some (acquiresleep p b (release h (upd b (\<lambda>x. x\<lparr>refcnt := refcnt x + 1\<rparr>) (acquire h s))))"
proof -
  have "find_cached (acquire h s) (Head h) d bn (nextb (head (acquire h s) h)) = Some (Some b)"
    using dll_find_cached[of "acquire h s" h xs d bn] d f by (simp add: acquire_alt)
  then show ?thesis
    using hash_index[OF h] by (simp add: bget_def Let_def)
qed

lemma bget_miss:
  assumes d: "dll s h xs" and h: "hash NBUCKET bn = int h" "h < NBUCKET"
    and f: "find (is_block s d bn) (map Buf xs) = None"
    and c: "fold (consider_buf s) (rev (map Buf xs)) (memset_uint 1, None, False) = (m, c, ch)"
  shows "bget NBUCKET p d bn s =
    (case c of
       None \<Rightarrow> eviction NBUCKET p h d bn m (release h (acquire h s))
     | Some b \<Rightarrow> Some (acquiresleep p b (release h (upd b (rebind d bn) (acquire h s)))))"
proof -
  have "find_cached (acquire h s) (Head h) d bn (nextb (head (acquire h s) h)) = Some None"
    using dll_find_cached[of "acquire h s" h xs d bn] d f by (simp add: acquire_alt)
  moreover have "scan (acquire h s) (Head h) (prevb (head (acquire h s) h)) (memset_uint 1, None, False)
      = Some (m, c, ch)"
    using dll_scan[of "acquire h s" h xs "(memset_uint 1, None, False)"] d c
    by (simp add: acquire_alt)
  ultimately show ?thesis
    using hash_index[OF h] by (simp add: bget_def Let_def split: option.split)
qed

lemma eviction_buckets:
  assumes b: "\<forall>i<NBUCKET. dll s i (L ! i)" and h: "h < NBUCKET"
    and f: "find (is_block s d bn) (map Buf (L ! h)) = None"
  shows "\<exists>m' c k es.
    eviction_scan NBUCKET h 0 (m, None, h) s = Some ((m', c, k), s\<lparr>trace := trace s @ es\<rparr>) \<and>
    cand_ok NBUCKET L (buf s) h c k \<and>
    eviction NBUCKET p h d bn m s =
      (case c of
         None \<Rightarrow>
           Some (Panic ''bget: no buffers'',
             (let s3 = release h (acquire h (s\<lparr>trace := trace s @ es\<rparr>))
              in if k \<noteq> h then release k s3 else s3))
       | Some cb \<Rightarrow>
           Some (acquiresleep p cb (release k (release h (upd cb (rebind d bn)
             (push_front h cb (unlink cb (acquire h (s\<lparr>trace := trace s @ es\<rparr>)))))))))"
proof -
  have "cand_ok NBUCKET L (buf s) h None h"
    by (simp add: cand_ok_def)
  from eviction_scan_buckets[OF b this, of 0 m] obtain m' c k s1 where
    ev: "eviction_scan NBUCKET h 0 (m, None, h) s = Some ((m', c, k), s1)"
    and ok: "cand_ok NBUCKET L (buf s) h c k"
    by blast
  from eviction_scan_trace[OF ev] obtain es where s1: "s1 = s\<lparr>trace := trace s @ es\<rparr>"
    by blast
  have "dll (acquire h s1) h (L ! h)"
    using b h by (simp add: s1)
  from dll_find_cached[OF this, of d bn] f
  have "find_cached (acquire h s1) (Head h) d bn (nextb (head (acquire h s1) h)) = Some None"
    by (simp add: s1 acquire_alt)
  with ev ok s1 show ?thesis
    by (intro exI[of _ m'] exI[of _ c] exI[of _ k] exI[of _ es])
       (simp add: eviction_def Let_def split: option.split)
qed

lemma bget_total:
  assumes b: "buckets NBUCKET NBUF s L"
  shows "\<exists>r s'. bget NBUCKET p d bn s = Some (r, s')"
proof (cases "hash NBUCKET bn < 0 \<or> int NBUCKET \<le> hash NBUCKET bn")
  case True
  then show ?thesis by (simp add: bget_def)
next
  case False
  define h where "h = nat (hash NBUCKET bn)"
  with False have h: "hash NBUCKET bn = int h" "h < NBUCKET"
    by auto
  from b have dl: "\<forall>i<NBUCKET. dll s i (L ! i)"
    by (simp add: buckets_def)
  with h have d: "dll s h (L ! h)"
    by simp
  show ?thesis
  proof (cases "find (is_block s d bn) (map Buf (L ! h))")
    case (Some b)
    obtain r s' where "acquiresleep p b (release h (upd b (\<lambda>x. x\<lparr>refcnt := refcnt x + 1\<rparr>)
        (acquire h s))) = (r, s')"
      by (rule prod.exhaust)
    with bget_hit[OF d h Some, of p] show ?thesis
      by simp
  next
    case None
    obtain m c ch where f: "fold (consider_buf s) (rev (map Buf (L ! h))) (memset_uint 1, None, False) = (m, c, ch)"
      by (metis prod_cases3)
    show ?thesis
    proof (cases c)
      case (Some cb)
      obtain r s' where "acquiresleep p cb (release h (upd cb (rebind d bn) (acquire h s))) = (r, s')"
        by (rule prod.exhaust)
      with Some bget_miss[OF d h None f, of p] show ?thesis
        by simp
    next
      case cn: None
      let ?s1 = "release h (acquire h s)"
      have dl1: "\<forall>i<NBUCKET. dll ?s1 i (L ! i)"
        using dl by simp
      have f1: "find (is_block ?s1 d bn) (map Buf (L ! h)) = None"
        using None by (simp add: acquire_alt release_alt)
      from eviction_buckets[OF dl1 h(2) f1, of m p] obtain y where
        "eviction NBUCKET p h d bn m ?s1 = Some y"
        by (fastforce split: option.splits)
      then obtain r s' where "eviction NBUCKET p h d bn m ?s1 = Some (r, s')"
        by (cases y) simp
      with bget_miss[OF d h None f] cn show ?thesis
        by simp
    qed
  qed
qed

subsection \<open>What a call leaves in the buffers\<close>

lemma find_Buf:
  "find P (map Buf xs) = map_option Buf (find (\<lambda>j. P (Buf j)) xs)"
  by (induction xs) auto

lemma buf_get: "buf s j = get s (Buf j)" and head_get: "head s i = get s (Head i)"
  by (simp_all add: get.simps)

lemma acquiresleep_get:
  assumes "acquiresleep p b s = (r, s')"
  shows "r = (if lock (get s b) = None then Return b else Sleeping b)"
    and "get s' q = (if q = b \<and> lock (get s b) = None then (get s b)\<lparr>lock := Some p\<rparr> else get s q)"
    and "ticks s' = ticks s" and "disk s' = disk s"
  using assms by (auto simp: acquiresleep_def Let_def get_upd split: if_splits)

lemma hashed_owner:
  assumes "buckets NBUCKET NBUF s L" "hashed NBUCKET s L" "j < NBUF"
  obtains i where "i < NBUCKET" "j \<in> set (L ! i)" "hash NBUCKET (blockno (buf s j)) = int i"
proof -
  from buckets_owner[OF assms(1,3)] obtain i where "i < NBUCKET" "j \<in> set (L ! i)"
    by blast
  with assms(2) that show thesis
    by (auto simp: hashed_def)
qed

lemma nexts_get: "(\<And>q. nextb (get s' q) = nextb (get s q)) \<Longrightarrow> nexts s' = nexts s"
  by (rule ext) (simp add: nexts_def)

lemma prevs_get: "(\<And>q. prevb (get s' q) = prevb (get s q)) \<Longrightarrow> prevs s' = prevs s"
  by (rule ext) (simp add: prevs_def)

lemma brelse_panic:
  "(\<exists>msg. fst (brelse NBUCKET p b s) = Panic msg) \<longleftrightarrow> \<not> holdingsleep p b s"
  by (simp add: brelse_def Let_def)

lemma brelse_effect:
  assumes hold: "holdingsleep p b s" and h: "hash NBUCKET (blockno (get s b)) = int i" "i < NBUCKET"
  shows "\<exists>s'. brelse NBUCKET p b s = (Return (), s') \<and>
     trace s' = trace s @ [ReleaseSleep b, Acquire i, Store b Refcnt] @
       (if refcnt (get s b) - 1 = 0 then [Store b Lastuse] else []) @ [Release i] \<and>
     (\<forall>q. get s' q = (if q = b
        then (get s b)\<lparr>lock := None, refcnt := refcnt (get s b) - 1,
               lastuse := (if refcnt (get s b) - 1 = 0 then ticks s else lastuse (get s b))\<rparr>
        else get s q)) \<and>
     ticks s' = ticks s \<and> disk s' = disk s"
proof -
  let ?s1 = "releasesleep b s"
  have g1: "get ?s1 q = (if q = b then (get s b)\<lparr>lock := None\<rparr> else get s q)" for q
    by (simp add: releasesleep_def get_upd)
  have b1: "blockno (get ?s1 b) = blockno (get s b)"
    by (simp add: g1)
  have t1: "trace ?s1 = trace s @ [ReleaseSleep b]" "ticks ?s1 = ticks s" "disk ?s1 = disk s"
    by (simp_all add: releasesleep_def)
  show ?thesis
    using hold hash_index[OF h[folded b1]] t1
    by (simp add: brelse_def Let_def b1 get_store g1)
qed

lemma fold_consider_buf_None:
  assumes "fold (consider_buf s) ps (m, None, f) = (m', Some q, f')"
  shows "q \<in> set ps" "refcnt (get s q) = 0"
  using fold_consider_buf[OF assms] by auto

lemma bget_paths:
  assumes b: "buckets NBUCKET NBUF s L" and h: "hash NBUCKET bn = int h" "h < NBUCKET"
  obtains
    (hit) j t where "find (\<lambda>j. is_block s d bn (Buf j)) (L ! h) = Some j"
      "bget NBUCKET p d bn s = Some (acquiresleep p (Buf j)
         ((upd (Buf j) (\<lambda>x. x\<lparr>refcnt := refcnt x + 1\<rparr>) s)\<lparr>trace := t\<rparr>))"
  | (local) j t where "find (\<lambda>j. is_block s d bn (Buf j)) (L ! h) = None"
      "j \<in> set (L ! h)" "refcnt (buf s j) = 0"
      "bget NBUCKET p d bn s = Some (acquiresleep p (Buf j)
         ((upd (Buf j) (rebind d bn) s)\<lparr>trace := t\<rparr>))"
  | (panic) t where "find (\<lambda>j. is_block s d bn (Buf j)) (L ! h) = None"
      "bget NBUCKET p d bn s = Some (Panic ''bget: no buffers'', s\<lparr>trace := t\<rparr>)"
  | (moved) j k t where "find (\<lambda>j. is_block s d bn (Buf j)) (L ! h) = None"
      "k < NBUCKET" "k \<noteq> h" "j \<in> set (L ! k)" "refcnt (buf s j) = 0"
      "bget NBUCKET p d bn s = Some (acquiresleep p (Buf j)
         ((upd (Buf j) (rebind d bn) (push_front h (Buf j) (unlink (Buf j) s)))\<lparr>trace := t\<rparr>))"
proof -
  from b have dl: "\<forall>i<NBUCKET. dll s i (L ! i)"
    by (simp add: buckets_def)
  with h have d: "dll s h (L ! h)"
    by simp
  show thesis
  proof (cases "find (\<lambda>j. is_block s d bn (Buf j)) (L ! h)")
    case (Some j)
    then have "find (is_block s d bn) (map Buf (L ! h)) = Some (Buf j)"
      by (simp add: find_Buf)
    from bget_hit[OF d h this, of p] have
      "bget NBUCKET p d bn s = Some (acquiresleep p (Buf j)
         ((upd (Buf j) (\<lambda>x. x\<lparr>refcnt := refcnt x + 1\<rparr>) s)\<lparr>trace := trace s @ [Acquire h, Release h]\<rparr>))"
      by (simp add: acquire_alt release_alt upd_trace)
    with Some show ?thesis by (rule hit)
  next
    case None
    then have fn: "find (is_block s d bn) (map Buf (L ! h)) = None"
      by (simp add: find_Buf)
    obtain m c ch where f: "fold (consider_buf s) (rev (map Buf (L ! h))) (memset_uint 1, None, False) = (m, c, ch)"
      by (metis prod_cases3)
    show ?thesis
    proof (cases c)
      case (Some cb)
      from fold_consider_buf_None[OF f[unfolded Some]] obtain j where
        j: "cb = Buf j" "j \<in> set (L ! h)" "refcnt (buf s j) = 0"
        by (auto simp: get.simps)
      from bget_miss[OF d h fn f, of p] Some j(1) have
        "bget NBUCKET p d bn s = Some (acquiresleep p (Buf j)
           ((upd (Buf j) (rebind d bn) s)\<lparr>trace := trace s @ [Acquire h, Release h]\<rparr>))"
        by (simp add: acquire_alt release_alt upd_trace)
      with None j(2,3) show ?thesis by (rule local)
    next
      case cn: None
      let ?s1 = "release h (acquire h s)"
      have s1: "?s1 = s\<lparr>trace := trace s @ [Acquire h, Release h]\<rparr>"
        by (simp add: acquire_alt release_alt)
      have dl1: "\<forall>i<NBUCKET. dll ?s1 i (L ! i)"
        using dl by simp
      have f1: "find (is_block ?s1 d bn) (map Buf (L ! h)) = None"
        using fn by (simp add: s1)
      have bs: "buf ?s1 = buf s"
        by simp
      from eviction_buckets[OF dl1 h(2) f1, of m p, unfolded bs] obtain m' c' k es where
        ok: "cand_ok NBUCKET L (buf s) h c' k" and
        ev: "eviction NBUCKET p h d bn m ?s1 =
          (case c' of
             None \<Rightarrow>
               Some (Panic ''bget: no buffers'',
                 (let s3 = release h (acquire h (?s1\<lparr>trace := trace ?s1 @ es\<rparr>))
                  in if k \<noteq> h then release k s3 else s3))
           | Some cb \<Rightarrow>
               Some (acquiresleep p cb (release k (release h (upd cb (rebind d bn)
                 (push_front h cb (unlink cb (acquire h (?s1\<lparr>trace := trace ?s1 @ es\<rparr>)))))))))"
        by blast
      from bget_miss[OF d h fn f, of p] cn have bg: "bget NBUCKET p d bn s = eviction NBUCKET p h d bn m ?s1"
        by simp
      show ?thesis
      proof (cases c')
        case None
        with ok have "k = h" by (simp add: cand_ok_def)
        with bg ev None have "bget NBUCKET p d bn s = Some (Panic ''bget: no buffers'',
            s\<lparr>trace := trace s @ [Acquire h, Release h] @ es @ [Acquire h, Release h]\<rparr>)"
          by (simp add: acquire_alt release_alt)
        with \<open>find (\<lambda>j. is_block s d bn (Buf j)) (L ! h) = None\<close> show ?thesis by (rule panic)
      next
        case (Some cb)
        with ok obtain j where j: "cb = Buf j" "j \<in> set (L ! k)" "k < NBUCKET" "k \<noteq> h"
          "refcnt (buf s j) = 0"
          by (auto simp: cand_ok_def)
        from bg ev Some j(1) have "bget NBUCKET p d bn s = Some (acquiresleep p (Buf j)
           ((upd (Buf j) (rebind d bn) (push_front h (Buf j) (unlink (Buf j) s)))
              \<lparr>trace := trace s @ [Acquire h, Release h] @ es @ [Acquire h, Release h, Release k]\<rparr>))"
          by (simp add: acquire_alt release_alt upd_trace unlink_trace push_front_trace)
        with \<open>find (\<lambda>j. is_block s d bn (Buf j)) (L ! h) = None\<close> j(3,4,2,5) show ?thesis by (rule moved)
      qed
    qed
  qed
qed

subsection \<open>binit\<close>

lemma nexts_binit_head: "nexts (binit_head i s) = (nexts s)(Head i := Head i)"
  by (simp add: binit_head_def Let_def nexts_upd_keep nexts_upd_nextb)

lemma prevs_binit_head: "prevs (binit_head i s) = (prevs s)(Head i := Head i)"
  by (simp add: binit_head_def Let_def prevs_upd_keep prevs_upd_prevb)

lemma binit_heads:
  "i < n \<Longrightarrow> nexts (fold binit_head [0..<n] s) (Head i) = Head i \<and>
               prevs (fold binit_head [0..<n] s) (Head i) = Head i"
  by (induction n) (auto simp: nexts_binit_head prevs_binit_head less_Suc_eq)

lemma dll_empty: "dll s i [] \<longleftrightarrow> nexts s (Head i) = Head i \<and> prevs s (Head i) = Head i"
  by (simp add: dll_def)

lemma nexts_binit_buf: "nexts (binit_buf j s) = nexts (push_front 0 (Buf j) s)"
  by (simp add: binit_buf_def initsleeplock_def push_front_def Let_def nextb_head
      nexts_upd_keep nexts_upd_nextb)

lemma prevs_binit_buf: "prevs (binit_buf j s) = prevs (push_front 0 (Buf j) s)"
  by (simp add: binit_buf_def initsleeplock_def push_front_def Let_def nextb_head
      nexts_upd_keep nexts_upd_nextb prevs_upd_keep prevs_upd_prevb)

lemma dll_binit_buf: "dll (binit_buf j s) i xs = dll (push_front 0 (Buf j) s) i xs"
  by (rule dll_same_links) (rule nexts_binit_buf prevs_binit_buf)+

lemma binit_bufs:
  assumes "\<forall>i<NBUCKET. dll s i []" and "0 < NBUCKET"
  shows "\<forall>i<NBUCKET. dll (fold binit_buf [0..<n] s) i (if i = 0 then rev [0..<n] else [])"
proof (induction n)
  case 0
  with assms show ?case by simp
next
  case (Suc n)
  let ?s = "fold binit_buf [0..<n] s"
  have d0: "dll ?s 0 (rev [0..<n])"
    using Suc[rule_format, OF assms(2)] by simp
  show ?case
  proof (intro allI impI)
    fix i assume i: "i < NBUCKET"
    show "dll (fold binit_buf [0..<Suc n] s) i (if i = 0 then rev [0..<Suc n] else [])"
    proof (cases "i = 0")
      case True
      have "dll (push_front 0 (Buf n) ?s) 0 (n # rev [0..<n])"
        by (rule dll_push_front_home[OF d0]) simp_all
      with True show ?thesis
        by (simp add: dll_binit_buf)
    next
      case False
      with Suc[rule_format, OF i] have "dll ?s i []" by simp
      from dll_push_front_other[OF d0 this False] False show ?thesis
        by (simp add: dll_binit_buf)
    qed
  qed
qed

lemma binit_buckets:
  assumes "0 < NBUCKET"
  shows "buckets NBUCKET NBUF (binit NBUCKET NBUF s) (rev [0..<NBUF] # replicate (NBUCKET - 1) [])"
proof -
  let ?s1 = "fold binit_head [0..<NBUCKET] s"
  let ?L = "rev [0..<NBUF] # replicate (NBUCKET - 1) []"
  have "\<forall>i<NBUCKET. dll ?s1 i []"
    using binit_heads[of _ NBUCKET s] by (simp add: dll_empty)
  from binit_bufs[OF this assms, of NBUF]
  have "\<forall>i<NBUCKET. dll (binit NBUCKET NBUF s) i (?L ! i)"
    by (auto simp: binit_def nth_Cons')
  moreover have "length ?L = NBUCKET"
    using assms by simp
  moreover have "concat ?L = rev [0..<NBUF]"
    by (induction "NBUCKET - 1") simp_all
  ultimately show ?thesis
    by (simp add: buckets_def) auto
qed

subsection \<open>What each operation may change\<close>

lemma acquiresleep_store:
  assumes "acquiresleep p b (X\<lparr>trace := t\<rparr>) = (r, s')"
  shows "r = (if lock (get X b) = None then Return b else Sleeping b)"
    and "get s' q = (if q = b \<and> lock (get X b) = None then (get X b)\<lparr>lock := Some p\<rparr> else get X q)"
    and "nexts s' = nexts X" and "prevs s' = prevs X"
proof -
  note e = acquiresleep_get[OF assms, unfolded get_trace_update]
  show "r = (if lock (get X b) = None then Return b else Sleeping b)"
    and g: "get s' q = (if q = b \<and> lock (get X b) = None then (get X b)\<lparr>lock := Some p\<rparr> else get X q)" for q
    using e(1,2) by simp_all
  show "nexts s' = nexts X"
    by (rule nexts_get) (simp add: g)
  show "prevs s' = prevs X"
    by (rule prevs_get) (simp add: g)
qed

lemma payload_link [simp]:
  "payload (x\<lparr>nextb := v\<rparr>) = payload x" "payload (x\<lparr>prevb := v\<rparr>) = payload x"
  by (simp_all add: payload_def)

lemma payload_upd_keep:
  "(\<And>x. payload (f x) = payload x) \<Longrightarrow> payload (get (upd q f s) r) = payload (get s r)"
  by (simp add: get_upd)

lemma payload_unlink: "payload (get (unlink c s) q) = payload (get s q)"
  by (simp add: unlink_def Let_def payload_upd_keep)

lemma payload_push_front: "payload (get (push_front h c s) q) = payload (get s q)"
  by (simp add: push_front_def Let_def payload_upd_keep)

lemma get_rebind:
  "get (upd c (rebind d bn) X) q = (if q = c then rebind d bn (get X c) else get X q)"
  by (simp add: get_upd)

lemma payload_rebind:
  "payload (rebind d bn x) = (0, d, bn, lock x, 1, data x, lastuse x)"
  by (simp add: payload_def rebind_def)

lemma links_rebind [simp]: "nextb (rebind d bn x) = nextb x" "prevb (rebind d bn x) = prevb x"
  by (simp_all add: rebind_def)

text \<open>The general effect of brelse, bpin and bunpin: only the buffer passed can change.\<close>

lemma brelse_frame:
  assumes "brelse NBUCKET p b s = (r, s')"
  shows "get s' q = (if q = b then (get s b)\<lparr>lock := lock (get s' b), refcnt := refcnt (get s' b),
                                   lastuse := lastuse (get s' b)\<rparr> else get s q)"
  using assms
  by (auto simp: brelse_def Let_def releasesleep_def get_upd get_store split: if_splits)

lemma bpin_frame:
  assumes "bpin NBUCKET b s = (r, s')"
  shows "get s' q = (if q = b then (get s b)\<lparr>refcnt := refcnt (get s' b)\<rparr> else get s q)"
  using assms
  by (auto simp: bpin_def Let_def get_store split: if_splits)

lemma bunpin_frame:
  assumes "bunpin NBUCKET b s = (r, s')"
  shows "get s' q = (if q = b then (get s b)\<lparr>refcnt := refcnt (get s' b)\<rparr> else get s q)"
  using assms
  by (auto simp: bunpin_def Let_def get_store split: if_splits)

lemma bwrite_frame:
  assumes "bwrite p b s = (r, s')"
  shows "get s' q = get s q"
  using assms
  by (cases q) (auto simp: bwrite_def virtio_disk_rw_def get.simps Let_def split: if_splits)

lemma bread_frame:
  assumes "bget NBUCKET p d bn s = Some (r, s')" "bread NBUCKET p d bn s = Some (r2, s2)"
  shows "r2 = r" and "nexts s2 = nexts s'" and "prevs s2 = prevs s'"
proof -
  have "r2 = r \<and> nexts s2 = nexts s' \<and> prevs s2 = prevs s'"
  proof (cases "\<exists>b. r = Return b \<and> valid (get s' b) = 0")
    case True
    then obtain b where b: "r = Return b" "valid (get s' b) = 0" by blast
    with assms have "r2 = r" "s2 = upd b (\<lambda>x. x\<lparr>valid := 1\<rparr>) (virtio_disk_rw b False s')"
      by (simp_all add: bread_def)
    then show ?thesis
      by (simp add: virtio_disk_rw_def Let_def nexts_upd_keep prevs_upd_keep)
  next
    case False
    with assms have "r2 = r" "s2 = s'"
      by (cases r; auto simp: bread_def split: if_splits)+
    then show ?thesis by simp
  qed
  then show "r2 = r" and "nexts s2 = nexts s'" and "prevs s2 = prevs s'"
    by simp_all
qed

lemma bget_buckets:
  assumes b: "buckets NBUCKET NBUF s L" and g: "bget NBUCKET p d bn s = Some (r, s')"
  shows "(nexts s' = nexts s \<and> prevs s' = prevs s \<and> buckets NBUCKET NBUF s' L) \<or>
     (\<exists>c k h. hash NBUCKET bn = int h \<and> h < NBUCKET \<and> k < NBUCKET \<and> k \<noteq> h \<and>
        c \<in> set (L ! k) \<and> (r = Return (Buf c) \<or> r = Sleeping (Buf c)) \<and>
        find (\<lambda>j. is_block s d bn (Buf j)) (L ! h) = None \<and>
        dev (buf s' c) = d \<and> blockno (buf s' c) = bn \<and> valid (buf s' c) = 0 \<and>
        refcnt (buf s' c) = 1 \<and>
        buckets NBUCKET NBUF s' (L[k := remove1 c (L ! k), h := c # L ! h]))"
proof (cases "hash NBUCKET bn < 0 \<or> int NBUCKET \<le> hash NBUCKET bn")
  case True
  with g have "s' = s" by (simp add: bget_def)
  with b show ?thesis by simp
next
  case False
  define h where "h = nat (hash NBUCKET bn)"
  with False have h: "hash NBUCKET bn = int h" "h < NBUCKET"
    by auto
  have same: "nexts s' = nexts s \<and> prevs s' = prevs s \<and> buckets NBUCKET NBUF s' L"
    if "nexts s' = nexts s" "prevs s' = prevs s"
    using that b by (simp add: buckets_same_links[OF that])
  from b h show ?thesis
  proof (cases rule: bget_paths[where p = p and d = d])
    case (hit j t)
    with g have a: "acquiresleep p (Buf j)
        ((upd (Buf j) (\<lambda>x. x\<lparr>refcnt := refcnt x + 1\<rparr>) s)\<lparr>trace := t\<rparr>) = (r, s')"
      by simp
    from acquiresleep_store(3,4)[OF a] have "nexts s' = nexts s" "prevs s' = prevs s"
      by (simp_all add: nexts_upd_keep prevs_upd_keep)
    from same[OF this] show ?thesis by simp
  next
    case (local j t)
    with g have a: "acquiresleep p (Buf j) ((upd (Buf j) (rebind d bn) s)\<lparr>trace := t\<rparr>) = (r, s')"
      by simp
    from acquiresleep_store(3,4)[OF a] have "nexts s' = nexts s" "prevs s' = prevs s"
      by (simp_all add: nexts_upd_keep prevs_upd_keep)
    from same[OF this] show ?thesis by simp
  next
    case (panic t)
    with g have "s' = s\<lparr>trace := t\<rparr>" by simp
    then have "nexts s' = nexts s" "prevs s' = prevs s" by simp_all
    from same[OF this] show ?thesis by simp
  next
    case (moved j k t)
    let ?X = "upd (Buf j) (rebind d bn) (push_front h (Buf j) (unlink (Buf j) s))"
    let ?L' = "L[k := remove1 j (L ! k), h := j # L ! h]"
    from moved g have a: "acquiresleep p (Buf j) (?X\<lparr>trace := t\<rparr>) = (r, s')"
      by simp
    note e = acquiresleep_store[OF a]
    have n: "nexts s' = nexts (push_front h (Buf j) (unlink (Buf j) s))"
      "prevs s' = prevs (push_front h (Buf j) (unlink (Buf j) s))"
      using e(3,4) by (simp_all add: nexts_upd_keep prevs_upd_keep)
    have "buckets NBUCKET NBUF s' ?L'"
      using buckets_relink[OF b moved(2) h(2) moved(3,4)] by (simp add: buckets_same_links[OF n])
    moreover have "r = Return (Buf j) \<or> r = Sleeping (Buf j)"
      using e(1) by simp
    moreover have "dev (buf s' j) = d \<and> blockno (buf s' j) = bn \<and> valid (buf s' j) = 0 \<and>
        refcnt (buf s' j) = 1"
      using e(2)[of "Buf j"] by (simp add: get_upd rebind_def buf_get)
    ultimately show ?thesis
      using h moved(1,2,3,4) by blast
  qed
qed

lemma links_eq: "links s' = links s \<longleftrightarrow> nexts s' = nexts s \<and> prevs s' = prevs s"
  by (auto simp: links_def fun_eq_iff)

lemma links_get: "(\<And>q. get s' q = (if q = b then f q else get s q)) \<Longrightarrow>
    nextb (f b) = nextb (get s b) \<Longrightarrow> prevb (f b) = prevb (get s b) \<Longrightarrow> links s' = links s"
  unfolding links_eq by (intro conjI nexts_get prevs_get) simp_all

lemma brelse_links: "links (snd (brelse NBUCKET p b s)) = links s"
proof -
  obtain r s' where r: "brelse NBUCKET p b s = (r, s')" by (rule prod.exhaust)
  have "links s' = links s"
    by (rule links_get[where b = b, OF brelse_frame[OF r]]) simp_all
  with r show ?thesis by simp
qed

lemma bpin_links: "links (snd (bpin NBUCKET b s)) = links s"
proof -
  obtain r s' where r: "bpin NBUCKET b s = (r, s')" by (rule prod.exhaust)
  have "links s' = links s"
    by (rule links_get[where b = b, OF bpin_frame[OF r]]) simp_all
  with r show ?thesis by simp
qed

lemma bunpin_links: "links (snd (bunpin NBUCKET b s)) = links s"
proof -
  obtain r s' where r: "bunpin NBUCKET b s = (r, s')" by (rule prod.exhaust)
  have "links s' = links s"
    by (rule links_get[where b = b, OF bunpin_frame[OF r]]) simp_all
  with r show ?thesis by simp
qed

lemma bwrite_links: "links (snd (bwrite p b s)) = links s"
proof -
  obtain r s' where r: "bwrite p b s = (r, s')" by (rule prod.exhaust)
  have "links s' = links s"
    unfolding links_eq by (intro conjI nexts_get prevs_get) (simp_all add: bwrite_frame[OF r])
  with r show ?thesis by simp
qed

subsection \<open>What the operations leave unchanged\<close>


lemma relink_links:
  assumes d: "dll s k (P @ j # Q)" and dist: "distinct (P @ j # Q)" and kh: "k \<noteq> h"
    and q: "q \<notin> {Buf j, prevs s (Buf j), nexts s (Buf j), Head h, nexts s (Head h)}"
  shows "links (push_front h (Buf j) (unlink (Buf j) s)) q = links s q"
proof -
  have pc: "prevs s (Buf j) \<in> insert (Head k) (Buf ` set P)"
    using dll_prev_of[OF d] last_ring_in[of k P] by simp
  with kh have "prevs s (Buf j) \<noteq> Head h"
    by auto
  then have "nexts (unlink (Buf j) s) (Head h) = nexts s (Head h)"
    by (simp add: nexts_unlink)
  with q show ?thesis
    by (simp add: links_def nexts_push_front prevs_push_front nexts_unlink
        prevs_unlink[OF dll_prev_not_self[OF d dist]])
qed

lemma payload_fields:
  assumes "payload x = payload y"
  shows "valid x = valid y" "dev x = dev y" "blockno x = blockno y" "lock x = lock y"
    "refcnt x = refcnt y" "data x = data y" "lastuse x = lastuse y"
  using assms by (simp_all add: payload_def)

lemma bget_hit_frame:
  assumes b: "buckets NBUCKET NBUF s L" and h: "hash NBUCKET bn = int h" "h < NBUCKET"
    and f: "find (\<lambda>j. is_block s d bn (Buf j)) (L ! h) = Some j"
    and g: "bget NBUCKET p d bn s = Some (r, s')"
  shows "(\<forall>q. q \<noteq> Buf j \<longrightarrow> get s' q = get s q) \<and>
     buf s' j = (buf s j)\<lparr>refcnt := refcnt (buf s' j), lock := lock (buf s' j)\<rparr>"
proof -
  from b h have d: "dll s h (L ! h)"
    by (simp add: buckets_def)
  have "find (is_block s d bn) (map Buf (L ! h)) = Some (Buf j)"
    using f by (simp add: find_Buf)
  from bget_hit[OF d h this, of p] g have
    a: "acquiresleep p (Buf j)
        ((upd (Buf j) (\<lambda>x. x\<lparr>refcnt := refcnt x + 1\<rparr>) s)\<lparr>trace := trace s @ [Acquire h, Release h]\<rparr>) = (r, s')"
    by (simp add: acquire_alt release_alt upd_trace)
  note e = acquiresleep_store(2)[OF a]
  have "get s' q = get s q" if "q \<noteq> Buf j" for q
    using e[of q] that by (simp add: get_upd)
  moreover have "buf s' j = (buf s j)\<lparr>refcnt := refcnt (buf s' j), lock := lock (buf s' j)\<rparr>"
    using e[of "Buf j"] by (simp add: get_upd buf_get)
  ultimately show ?thesis
    by blast
qed

lemma bget_miss_frame:
  assumes b: "buckets NBUCKET NBUF s L" and h: "hash NBUCKET bn = int h" "h < NBUCKET"
    and f: "find (\<lambda>j. is_block s d bn (Buf j)) (L ! h) = None"
    and g: "bget NBUCKET p d bn s = Some (r, s')"
  shows "(r = Panic ''bget: no buffers'' \<and> get s' = get s) \<or>
     (\<exists>c<NBUF. (r = Return (Buf c) \<or> r = Sleeping (Buf c)) \<and> refcnt (buf s c) = 0 \<and>
        dev (buf s' c) = d \<and> blockno (buf s' c) = bn \<and> valid (buf s' c) = 0 \<and>
        refcnt (buf s' c) = 1 \<and> data (buf s' c) = data (buf s c) \<and>
        (\<forall>k. k \<noteq> c \<longrightarrow> payload (buf s' k) = payload (buf s k)) \<and>
        (c \<in> set (L ! h) \<longrightarrow> links s' = links s) \<and>
        (\<forall>q. q \<notin> {Buf c, prevs s (Buf c), nexts s (Buf c), Head h, nexts s (Head h)} \<longrightarrow>
             links s' q = links s q))"
proof -
  from b have len: "length L = NBUCKET" and un: "(\<Union>i<NBUCKET. set (L ! i)) = {..<NBUF}"
    and dl: "\<And>i. i < NBUCKET \<Longrightarrow> dll s i (L ! i)"
    and di: "\<And>i. i < NBUCKET \<Longrightarrow> distinct (L ! i)"
    by (simp_all add: buckets_alt)
  have inN: "j < NBUF" if "k < NBUCKET" "j \<in> set (L ! k)" for j k
    using un that by blast
  from b h show ?thesis
  proof (cases rule: bget_paths[where p = p and d = d])
    case (hit j t)
    with f show ?thesis by simp
  next
    case (panic t)
    with g have "r = Panic ''bget: no buffers''" "get s' = get s"
      by auto
    then show ?thesis by blast
  next
    case (local j t)
    let ?X = "upd (Buf j) (rebind d bn) s"
    from local g have a: "acquiresleep p (Buf j) (?X\<lparr>trace := t\<rparr>) = (r, s')"
      by simp
    note e = acquiresleep_store[OF a]
    have "links s' = links s"
      unfolding links_eq using e(3,4) by (simp add: nexts_upd_keep prevs_upd_keep)
    moreover have "r = Return (Buf j) \<or> r = Sleeping (Buf j)"
      using e(1) by simp
    moreover have "dev (buf s' j) = d \<and> blockno (buf s' j) = bn \<and> valid (buf s' j) = 0 \<and>
        refcnt (buf s' j) = 1 \<and> data (buf s' j) = data (buf s j)"
      using e(2)[of "Buf j"] by (simp add: get_upd rebind_def buf_get)
    moreover have "payload (buf s' k) = payload (buf s k)" if "k \<noteq> j" for k
      using e(2)[of "Buf k"] that by (simp add: get_upd buf_get)
    ultimately show ?thesis
      using inN[OF h(2) local(2)] local(3) by auto
  next
    case (moved j k t)
    let ?Y = "push_front h (Buf j) (unlink (Buf j) s)"
    let ?X = "upd (Buf j) (rebind d bn) ?Y"
    from moved g have a: "acquiresleep p (Buf j) (?X\<lparr>trace := t\<rparr>) = (r, s')"
      by simp
    note e = acquiresleep_store[OF a]
    from moved(4) obtain P Q where pq: "L ! k = P @ j # Q"
      by (auto dest: split_list)
    have dk: "dll s k (P @ j # Q)" "distinct (P @ j # Q)"
      using dl[OF moved(2)] di[OF moved(2)] by (simp_all add: pq)
    have n: "nexts s' = nexts ?Y" "prevs s' = prevs ?Y"
      using e(3,4) by (simp_all add: nexts_upd_keep prevs_upd_keep)
    have lk: "links s' q = links ?Y q" for q
      by (simp add: links_def n)
    have py: "payload (get ?Y q) = payload (get s q)" for q
      by (simp add: payload_push_front payload_unlink)
    have "links s' q = links s q"
      if "q \<notin> {Buf j, prevs s (Buf j), nexts s (Buf j), Head h, nexts s (Head h)}" for q
      using relink_links[OF dk moved(3) that] by (simp add: lk)
    moreover have "r = Return (Buf j) \<or> r = Sleeping (Buf j)"
      using e(1) by simp
    moreover have "dev (buf s' j) = d \<and> blockno (buf s' j) = bn \<and> valid (buf s' j) = 0 \<and>
        refcnt (buf s' j) = 1 \<and> data (buf s' j) = data (buf s j)"
      using e(2)[of "Buf j"] payload_fields(6)[OF py[of "Buf j"]]
      by (simp add: get_upd rebind_def buf_get)
    moreover have "payload (buf s' m) = payload (buf s m)" if "m \<noteq> j" for m
      using e(2)[of "Buf m"] that py[of "Buf m"] by (simp add: get_upd buf_get)
    moreover have "j \<notin> set (L ! h)"
    proof
      assume "j \<in> set (L ! h)"
      with buckets_owner[OF b inN[OF moved(2,4)]] moved(2,3,4) h(2) show False
        by auto
    qed
    ultimately show ?thesis
      using inN[OF moved(2,4)] moved(5) by auto
  qed
qed

subsection \<open>Every buffer on the list of the bucket it hashes to\<close>

text \<open>
  \<^verbatim>\<open>bcache\<close> is static storage, so every block number is 0 when \<^verbatim>\<open>binit\<close> runs, and 0
  hashes to bucket 0, where \<^verbatim>\<open>binit\<close> puts every buffer. \<^verbatim>\<open>bget\<close> gives a buffer a new block
  number only on the list of the bucket that number hashes to, and no other operation
  changes a block number or a list.
\<close>

lemma hash_zero: "hash NBUCKET 0 = 0"
  by (simp add: hash_def c_rem_def)

lemma blockno_upd_keep:
  "(\<And>x. blockno (f x) = blockno x) \<Longrightarrow> blockno (get (upd q f s) r) = blockno (get s r)"
  by (simp add: get_upd)

lemma blockno_binit_head: "blockno (get (binit_head i s) q) = blockno (get s q)"
  by (simp add: binit_head_def Let_def blockno_upd_keep)

lemma blockno_binit_buf: "blockno (get (binit_buf j s) q) = blockno (get s q)"
  by (simp add: binit_buf_def initsleeplock_def Let_def blockno_upd_keep)

lemma blockno_binit: "blockno (get (binit NBUCKET NBUF s) q) = blockno (get s q)"
proof -
  have h: "blockno (get (fold binit_head [0..<n] s) q) = blockno (get s q)" for n s
    by (induction n) (simp_all add: blockno_binit_head)
  have b: "blockno (get (fold binit_buf [0..<n] s) q) = blockno (get s q)" for n s
    by (induction n) (simp_all add: blockno_binit_buf)
  show ?thesis
    by (simp add: binit_def h b)
qed

lemma hashed_binit:
  assumes "\<forall>j<NBUF. blockno (buf s j) = 0"
  shows "hashed NBUCKET (binit NBUCKET NBUF s) (rev [0..<NBUF] # replicate (NBUCKET - 1) [])"
proof -
  have "hash NBUCKET (blockno (buf (binit NBUCKET NBUF s) j)) = int i"
    if "i < NBUCKET" "j \<in> set ((rev [0..<NBUF] # replicate (NBUCKET - 1) []) ! i)" for i j
  proof (cases i)
    case 0
    with that(2) have "j < NBUF" by simp
    with assms have "blockno (buf (binit NBUCKET NBUF s) j) = 0"
      by (simp add: buf_get blockno_binit)
    with 0 show ?thesis by (simp add: hash_zero)
  next
    case (Suc m)
    with that show ?thesis by simp
  qed
  then show ?thesis
    unfolding hashed_def by blast
qed

lemma hashed_bget:
  assumes b: "buckets NBUCKET NBUF s L" and hs: "hashed NBUCKET s L"
    and g: "bget NBUCKET p d bn s = Some (r, s')"
  shows "\<exists>L'. buckets NBUCKET NBUF s' L' \<and> hashed NBUCKET s' L'"
proof (cases "hash NBUCKET bn < 0 \<or> int NBUCKET \<le> hash NBUCKET bn")
  case True
  with g have "s' = s" by (simp add: bget_def)
  with b hs show ?thesis by blast
next
  case False
  define h where "h = nat (hash NBUCKET bn)"
  with False have h: "hash NBUCKET bn = int h" "h < NBUCKET"
    by auto
  from b have len: "length L = NBUCKET"
    and di: "\<And>i. i < NBUCKET \<Longrightarrow> distinct (L ! i)"
    and dj: "\<And>i m. i < NBUCKET \<Longrightarrow> m < NBUCKET \<Longrightarrow> i \<noteq> m \<Longrightarrow> set (L ! i) \<inter> set (L ! m) = {}"
    by (simp_all add: buckets_alt)
  from b h show ?thesis
  proof (cases rule: bget_paths[where p = p and d = d])
    case (hit j t)
    with g have a: "acquiresleep p (Buf j)
        ((upd (Buf j) (\<lambda>x. x\<lparr>refcnt := refcnt x + 1\<rparr>) s)\<lparr>trace := t\<rparr>) = (r, s')"
      by simp
    note e = acquiresleep_store[OF a]
    have n: "nexts s' = nexts s" "prevs s' = prevs s"
      using e(3,4) by (simp_all add: nexts_upd_keep prevs_upd_keep)
    have "blockno (buf s' k) = blockno (buf s k)" for k
      using e(2)[of "Buf k"] by (simp add: get_upd buf_get)
    with hs have "hashed NBUCKET s' L"
      by (simp add: hashed_def)
    with b show ?thesis
      using buckets_same_links[OF n] by blast
  next
    case (local j t)
    with g have a: "acquiresleep p (Buf j) ((upd (Buf j) (rebind d bn) s)\<lparr>trace := t\<rparr>) = (r, s')"
      by simp
    note e = acquiresleep_store[OF a]
    have n: "nexts s' = nexts s" "prevs s' = prevs s"
      using e(3,4) by (simp_all add: nexts_upd_keep prevs_upd_keep)
    have bl: "blockno (buf s' k) = (if k = j then bn else blockno (buf s k))" for k
      using e(2)[of "Buf k"] by (simp add: get_upd buf_get rebind_def)
    have "hash NBUCKET (blockno (buf s' x)) = int i" if "i < NBUCKET" "x \<in> set (L ! i)" for i x
    proof (cases "x = j")
      case True
      with that local(2) have "i = h"
        using dj[OF that(1) h(2)] by auto
      with True h(1) show ?thesis by (simp add: bl)
    next
      case False
      with hs that show ?thesis by (simp add: bl hashed_def)
    qed
    then have "hashed NBUCKET s' L"
      unfolding hashed_def by blast
    with b show ?thesis
      using buckets_same_links[OF n] by blast
  next
    case (panic t)
    with g have s': "s' = s\<lparr>trace := t\<rparr>" by simp
    then have n: "nexts s' = nexts s" "prevs s' = prevs s" by simp_all
    from s' hs have "hashed NBUCKET s' L"
      by (simp add: hashed_def)
    with b show ?thesis
      using buckets_same_links[OF n] by blast
  next
    case (moved j k t)
    let ?X = "upd (Buf j) (rebind d bn) (push_front h (Buf j) (unlink (Buf j) s))"
    let ?L' = "L[k := remove1 j (L ! k), h := j # L ! h]"
    from moved g have a: "acquiresleep p (Buf j) (?X\<lparr>trace := t\<rparr>) = (r, s')"
      by simp
    note e = acquiresleep_store[OF a]
    have n: "nexts s' = nexts (push_front h (Buf j) (unlink (Buf j) s))"
      "prevs s' = prevs (push_front h (Buf j) (unlink (Buf j) s))"
      using e(3,4) by (simp_all add: nexts_upd_keep prevs_upd_keep)
    have bk: "buckets NBUCKET NBUF s' ?L'"
      using buckets_relink[OF b moved(2) h(2) moved(3,4)] by (simp add: buckets_same_links[OF n])
    have pl: "blockno (get (push_front h (Buf j) (unlink (Buf j) s)) q) = blockno (get s q)" for q
      using payload_fields(3)[OF payload_push_front[of h "Buf j" "unlink (Buf j) s" q]]
        payload_fields(3)[OF payload_unlink[of "Buf j" s q]] by simp
    have bl: "blockno (buf s' x) = (if x = j then bn else blockno (buf s x))" for x
      using e(2)[of "Buf x"] pl[of "Buf x"] pl[of "Buf j"]
      by (simp add: get_upd buf_get rebind_def)
    have nth: "?L' ! i = (if i = h then j # L ! h else if i = k then remove1 j (L ! k) else L ! i)"
      if "i < NBUCKET" for i
      using that len moved(2) h(2) by (simp add: nth_list_update)
    have "hash NBUCKET (blockno (buf s' x)) = int i" if i: "i < NBUCKET" and x: "x \<in> set (?L' ! i)" for i x
    proof -
      from x have xi: "x \<in> set (if i = h then j # L ! h else if i = k then remove1 j (L ! k) else L ! i)"
        unfolding nth[OF i] .
      show ?thesis
      proof (cases "x = j")
        case True
        have "i = h"
        proof (rule ccontr)
          assume ih: "i \<noteq> h"
          show False
          proof (cases "i = k")
            case ik: True
            with xi ih True have "j \<in> set (remove1 j (L ! k))"
              by simp
            with di[OF moved(2)] show False by simp
          next
            case False
            with xi ih True have "j \<in> set (L ! i)"
              by simp
            with moved(4) dj[OF i moved(2) False] show False by auto
          qed
        qed
        with True h(1) show ?thesis by (simp add: bl)
      next
        case False
        from xi False have "x \<in> set (L ! i)"
          by (auto dest: notin_set_remove1 split: if_splits)
        with hs i False show ?thesis by (simp add: bl hashed_def)
      qed
    qed
    then have "hashed NBUCKET s' ?L'"
      unfolding hashed_def by blast
    with bk show ?thesis by blast
  qed
qed


lemma hashed_frame:
  assumes b: "buckets NBUCKET NBUF s L" and hs: "hashed NBUCKET s L"
    and g: "\<And>q. blockno (get s' q) = blockno (get s q)"
    and n: "links s' = links s"
  shows "buckets NBUCKET NBUF s' L \<and> hashed NBUCKET s' L"
proof -
  from n have n': "nexts s' = nexts s" "prevs s' = prevs s"
    by (simp_all add: links_eq)
  from b have "buckets NBUCKET NBUF s' L"
    by (simp only: buckets_same_links[OF n'])
  moreover from hs g have "hashed NBUCKET s' L"
    by (simp add: hashed_def buf_get)
  ultimately show ?thesis ..
qed

lemma hashed_bpin:
  assumes "buckets NBUCKET NBUF s L" "hashed NBUCKET s L" "bpin NBUCKET b s = (r, s')"
  shows "buckets NBUCKET NBUF s' L \<and> hashed NBUCKET s' L"
proof (rule hashed_frame[OF assms(1,2)])
  show "blockno (get s' q) = blockno (get s q)" for q
    using bpin_frame[OF assms(3), of q, THEN arg_cong[where f = blockno]] by (cases "q = b") simp_all
  show "links s' = links s"
    using bpin_links[of NBUCKET b s] assms(3) by simp
qed

lemma hashed_bunpin:
  assumes "buckets NBUCKET NBUF s L" "hashed NBUCKET s L" "bunpin NBUCKET b s = (r, s')"
  shows "buckets NBUCKET NBUF s' L \<and> hashed NBUCKET s' L"
proof (rule hashed_frame[OF assms(1,2)])
  show "blockno (get s' q) = blockno (get s q)" for q
    using bunpin_frame[OF assms(3), of q, THEN arg_cong[where f = blockno]] by (cases "q = b") simp_all
  show "links s' = links s"
    using bunpin_links[of NBUCKET b s] assms(3) by simp
qed

lemma hashed_bwrite:
  assumes "buckets NBUCKET NBUF s L" "hashed NBUCKET s L" "bwrite p b s = (r, s')"
  shows "buckets NBUCKET NBUF s' L \<and> hashed NBUCKET s' L"
proof (rule hashed_frame[OF assms(1,2)])
  show "blockno (get s' q) = blockno (get s q)" for q
    by (simp add: bwrite_frame[OF assms(3)])
  show "links s' = links s"
    using bwrite_links[of p b s] assms(3) by simp
qed

lemma hashed_bread:
  assumes b: "buckets NBUCKET NBUF s L" and hs: "hashed NBUCKET s L"
    and g: "bread NBUCKET p d bn s = Some (r2, s2)"
  shows "\<exists>L'. buckets NBUCKET NBUF s2 L' \<and> hashed NBUCKET s2 L'"
proof -
  from g obtain r s' where bg: "bget NBUCKET p d bn s = Some (r, s')"
    by (cases "bget NBUCKET p d bn s") (simp add: bread_def, rename_tac a, case_tac a, simp)
  from hashed_bget[OF b hs bg] obtain L' where
    L': "buckets NBUCKET NBUF s' L'" "hashed NBUCKET s' L'"
    by blast
  have bl: "blockno (get s2 q) = blockno (get s' q)" for q
  proof (cases "\<exists>c. r = Return c \<and> valid (get s' c) = 0")
    case True
    then obtain c where c: "r = Return c" "valid (get s' c) = 0" by blast
    with bg g have "s2 = upd c (\<lambda>x. x\<lparr>valid := 1\<rparr>) (virtio_disk_rw c False s')"
      by (simp add: bread_def)
    then show ?thesis
      by (simp add: virtio_disk_rw_def Let_def get_upd)
  next
    case False
    with bg g have "s2 = s'"
      by (cases r; auto simp: bread_def split: if_splits)
    then show ?thesis by simp
  qed
  from bread_frame(2,3)[OF bg g] have "links s2 = links s'"
    by (simp add: links_eq)
  from hashed_frame[OF L' bl this] show ?thesis
    by blast
qed

lemma hashed_binit_zeroed:
  "hashed NBUCKET (binit NBUCKET NBUF zeroed) (rev [0..<NBUF] # replicate (NBUCKET - 1) [])"
  by (rule hashed_binit) (simp add: zeroed_def zero_buf_def)

text \<open>\<^verbatim>\<open>bpin\<close> and \<^verbatim>\<open>bunpin\<close> store the reference count while they hold the bucket's spinlock.\<close>

lemma bpin_trace:
  assumes "hash NBUCKET (blockno (get s b)) = int i" "i < NBUCKET"
  shows "trace (snd (bpin NBUCKET b s)) = trace s @ [Acquire i, Store b Refcnt, Release i]"
  using hash_index[OF assms] by (simp add: bpin_def Let_def)

lemma bunpin_trace:
  assumes "hash NBUCKET (blockno (get s b)) = int i" "i < NBUCKET"
  shows "trace (snd (bunpin NBUCKET b s)) = trace s @ [Acquire i, Store b Refcnt, Release i]"
  using hash_index[OF assms] by (simp add: bunpin_def Let_def)

section \<open>The claims\<close>

subsection \<open>hash\<close>

lemma sint_below_2_31:
  assumes "unat (blk :: uint) < 2 ^ 31"
  shows "sint blk = int (unat blk)"
proof -
  have "int (unat blk) < int (2 ^ 31)"
    using assms by (rule iffD2[OF of_nat_less_iff])
  then have "uint blk < 2 ^ 31"
    by (simp only: uint_nat) simp
  then have "signed_take_bit 31 (uint blk) = uint blk"
    by (intro signed_take_bit_int_eq_self) (use uint_ge_0[of blk] in linarith)+
  then have "sint blk = uint blk"
    by (simp only: sint_uint) simp
  then show ?thesis
    by (simp only: uint_nat)
qed

lemma hash_below_2_31:
  assumes "unat blk < 2 ^ 31" and "0 < NBUCKET"
  shows "hash NBUCKET blk = int (unat blk mod NBUCKET)"
proof -
  have "c_rem (int n) (int NBUCKET) = int (n mod NBUCKET)" for n
    by (cases "n = 0") (simp_all add: c_rem_def zmod_int)
  then show ?thesis
    by (simp only: hash_def sint_below_2_31[OF assms(1)])
qed

text \<open>
  C8. The claim: for every block number a caller passes (an unsigned 32-bit value),
  \<open>hash\<close> is the block number modulo \<open>NBUCKET\<close> and lies in \<open>[0, NBUCKET)\<close>, so that every
  index into \<^verbatim>\<open>bktlock\<close> and \<^verbatim>\<open>head\<close> is in bounds. The code takes the block number as a
  signed \<^verbatim>\<open>int\<close>: with 13 buckets the block number \<open>0xFFFFFFFF\<close> hashes to \<open>-1\<close>, and
  \<^verbatim>\<open>bget\<close> indexes \<^verbatim>\<open>bktlock[-1]\<close>.
\<close>

theorem hash_negative_index:
  "hash 13 0xFFFFFFFF = - 1 \<and> bget 13 p d 0xFFFFFFFF s = Some (Fault, s)"
  by (simp add: hash_def c_rem_def bget_def)

subsection \<open>The reclamation bound\<close>

text \<open>
  C1. The claim: on a miss the candidate is, among the buffers with \<^verbatim>\<open>refcnt == 0\<close> in
  the scanned buckets, one with the least \<^verbatim>\<open>lastuse\<close>, and a buffer with \<^verbatim>\<open>refcnt == 0\<close> is
  selected whenever there is one, whatever its tick. The code compares \<^verbatim>\<open>lastuse\<close> with
  a bound that \<^verbatim>\<open>memset\<close> set to \<open>0x01010101\<close>: in the cache \<open>late_used\<close> buffer 0 is on
  bucket 0 with \<^verbatim>\<open>refcnt == 0\<close> and \<^verbatim>\<open>lastuse == 0x01010101\<close>, and the scan of bucket 0
  selects no candidate.
\<close>

theorem scan_skips_late_buffer:
  "case late_used of
     None \<Rightarrow> False
   | Some s \<Rightarrow>
       dll s 0 [1, 0] \<and> refcnt (buf s 0) = 0 \<and> lastuse (buf s 0) = 0x01010101 \<and>
       scan s (Head 0) (prevb (head s 0)) (memset_uint 1, None, False)
         = Some (0x01010101, None, False)"
  by code_simp

text \<open>
  C2. The claim: \<^verbatim>\<open>bget\<close> panics with "bget: no buffers" exactly when no buffer in any
  bucket has \<^verbatim>\<open>refcnt == 0\<close>, and returns a buffer whenever some buffer has. In the cache
  \<open>late_used\<close> both buffers have \<^verbatim>\<open>refcnt == 0\<close>, and \<^verbatim>\<open>bget\<close> for block 9 of device 1,
  which is not cached, panics.
\<close>

theorem bget_panics_with_free_buffers:
  "case late_used of
     None \<Rightarrow> False
   | Some s \<Rightarrow>
       refcnt (buf s 0) = 0 \<and> refcnt (buf s 1) = 0 \<and>
       map_option fst (bget 3 7 1 9 s) = Some (Panic ''bget: no buffers'')"
  by code_simp

subsection \<open>The release stamp\<close>

text \<open>
  C3. The claim: \<^verbatim>\<open>brelse\<close> and \<^verbatim>\<open>bunpin\<close> both set \<^verbatim>\<open>lastuse\<close> to the current tick when
  they take \<^verbatim>\<open>refcnt\<close> from 1 to 0. \<^verbatim>\<open>brelse\<close> does; \<^verbatim>\<open>bunpin\<close> does not: after process 7 has
  read block 3 in the cache \<open>late\<close>, the buffer has \<^verbatim>\<open>refcnt == 1\<close> and \<^verbatim>\<open>lastuse == 0\<close>, and
  \<^verbatim>\<open>bunpin\<close> leaves it with \<^verbatim>\<open>refcnt == 0\<close> and \<^verbatim>\<open>lastuse == 0\<close> at tick 16843009.
\<close>

theorem bunpin_leaves_lastuse:
  "case bread 3 7 1 3 late of
     Some (Return b, s) \<Rightarrow>
       refcnt (get s b) = 1 \<and> lastuse (get s b) = 0 \<and> ticks s = 0x01010101 \<and>
       (case bunpin 3 b s of
          (r, s') \<Rightarrow> r = Return () \<and> refcnt (get s' b) = 0 \<and> lastuse (get s' b) = 0) \<and>
       (case brelse 3 7 b s of
          (r, s') \<Rightarrow> r = Return () \<and> refcnt (get s' b) = 0 \<and> lastuse (get s' b) = 0x01010101)
   | r \<Rightarrow> False"
  by code_simp

subsection \<open>bwrite\<close>

text \<open>
  C9. \<^verbatim>\<open>bwrite\<close> panics exactly when the caller does not hold the buffer's sleep-lock.
  When the caller holds it, \<^verbatim>\<open>bwrite\<close> returns after one transfer to the disk, which
  stores the buffer's bytes at its device and block number; no field of any buffer
  changes, so \<^verbatim>\<open>refcnt\<close> is what it was and the caller still holds the lock.
\<close>

theorem bwrite_spec:
  "((\<exists>msg. fst (bwrite p b s) = Panic msg) \<longleftrightarrow> \<not> holdingsleep p b s) \<and>
   (holdingsleep p b s \<longrightarrow>
      (\<exists>s'. bwrite p b s = (Return (), s') \<and>
            trace s' = trace s @ [DiskRW b True] \<and>
            disk s' = (disk s)((dev (get s b), blockno (get s b)) := data (get s b)) \<and>
            get s' = get s \<and>
            refcnt (get s' b) = refcnt (get s b) \<and>
            holdingsleep p b s'))"
proof -
  have same: "get (virtio_disk_rw b True s) = get s"
    by (rule ext, rename_tac q, case_tac q) (simp_all add: virtio_disk_rw_def Let_def get.simps)
  have io: "trace (virtio_disk_rw b True s) = trace s @ [DiskRW b True]"
    "disk (virtio_disk_rw b True s)
       = (disk s)((dev (get s b), blockno (get s b)) := data (get s b))"
    by (simp_all add: virtio_disk_rw_def Let_def)
  show ?thesis
    by (simp add: bwrite_def holdingsleep_def same io)
qed

theorem bwrite_spec_witness:
  "holdingsleep 7 (Buf 0) locked_buf \<and>
   (\<exists>s'. bwrite 7 (Buf 0) locked_buf = (Return (), s') \<and>
         trace s' = trace locked_buf @ [DiskRW (Buf 0) True] \<and>
         disk s' (1, 5) = [1, 2] \<and>
         refcnt (get s' (Buf 0)) = 1 \<and>
         holdingsleep 7 (Buf 0) s')"
proof -
  have h: "holdingsleep 7 (Buf 0) locked_buf"
    by (simp add: holdingsleep_def locked_buf_def zeroed_def get_upd)
  have v: "dev (get locked_buf (Buf 0)) = 1" "blockno (get locked_buf (Buf 0)) = 5"
    "data (get locked_buf (Buf 0)) = [1, 2]" "refcnt (get locked_buf (Buf 0)) = 1"
    by (simp_all add: locked_buf_def zeroed_def get_upd)
  from bwrite_spec[of 7 "Buf 0" locked_buf] h
  obtain s' where "bwrite 7 (Buf 0) locked_buf = (Return (), s')"
    "trace s' = trace locked_buf @ [DiskRW (Buf 0) True]"
    "disk s' = (disk locked_buf)((dev (get locked_buf (Buf 0)), blockno (get locked_buf (Buf 0)))
       := data (get locked_buf (Buf 0)))"
    "refcnt (get s' (Buf 0)) = refcnt (get locked_buf (Buf 0))"
    "holdingsleep 7 (Buf 0) s'"
    by blast
  with h v show ?thesis
    by simp
qed

subsection \<open>The spinlocks held by bget\<close>



subsection \<open>A block that is cached\<close>

text \<open>
  C5. Let the home bucket of a block hold the list \<open>xs\<close>, and let buffer \<open>j\<close> be the first
  on \<open>xs\<close> bound to the block. Then \<^verbatim>\<open>bget\<close> ends with buffer \<open>j\<close>: it returns it when its
  sleep-lock is free and is suspended on it otherwise. \<^verbatim>\<open>refcnt\<close> of \<open>j\<close> has gone up by
  one (in \<^verbatim>\<open>uint\<close> arithmetic), \<open>j\<close> is still bound to the block, and no other buffer and no
  sentinel has changed, so no second buffer is bound to it. \<^verbatim>\<open>bread\<close> ends the same way;
  when it returns, \<^verbatim>\<open>valid\<close> is not 0, and it has called the disk exactly when \<^verbatim>\<open>valid\<close>
  was 0; when \<^verbatim>\<open>valid\<close> was not 0, \<^verbatim>\<open>bread\<close> leaves the state \<^verbatim>\<open>bget\<close> left.
\<close>

theorem bget_cached:
  assumes d: "dll s h xs" and h: "hash NBUCKET bn = int h" "h < NBUCKET"
    and f: "find (\<lambda>j. is_block s d bn (Buf j)) xs = Some j"
  shows "\<exists>r s'. bget NBUCKET p d bn s = Some (r, s') \<and>
      r = (if lock (buf s j) = None then Return (Buf j) else Sleeping (Buf j)) \<and>
      buf s' j = (buf s j)\<lparr>refcnt := refcnt (buf s j) + 1,
                   lock := (if lock (buf s j) = None then Some p else lock (buf s j))\<rparr> \<and>
      dev (buf s' j) = d \<and> blockno (buf s' j) = bn \<and>
      (\<forall>k. k \<noteq> j \<longrightarrow> buf s' k = buf s k) \<and> head s' = head s \<and>
      (\<exists>r2 s2. bread NBUCKET p d bn s = Some (r2, s2) \<and> r2 = r \<and>
         (r = Return (Buf j) \<longrightarrow> valid (buf s2 j) \<noteq> 0) \<and>
         trace s2 = trace s' @ (if r = Return (Buf j) \<and> valid (buf s j) = 0
                                then [DiskRW (Buf j) False] else []) \<and>
         (valid (buf s j) \<noteq> 0 \<longrightarrow> s2 = s'))"
proof -
  let ?U = "release h (upd (Buf j) (\<lambda>x. x\<lparr>refcnt := refcnt x + 1\<rparr>) (acquire h s))"
  obtain r s' where a: "acquiresleep p (Buf j) ?U = (r, s')"
    by (rule prod.exhaust)
  have "find (is_block s d bn) (map Buf xs) = Some (Buf j)"
    using f by (simp add: find_Buf)
  from bget_hit[OF d h this, of p] a have g: "bget NBUCKET p d bn s = Some (r, s')"
    by simp
  have blk: "is_block s d bn (Buf j)"
    using f by (auto simp: find_Some_iff)
  have gU: "get ?U q = (if q = Buf j then (get s (Buf j))\<lparr>refcnt := refcnt (get s (Buf j)) + 1\<rparr> else get s q)" for q
    by (simp add: get_upd)
  note e = acquiresleep_get[OF a, unfolded gU]
  have r: "r = (if lock (buf s j) = None then Return (Buf j) else Sleeping (Buf j))"
    using e(1) by (simp add: get.simps)
  have bj: "buf s' j = (buf s j)\<lparr>refcnt := refcnt (buf s j) + 1,
                   lock := (if lock (buf s j) = None then Some p else lock (buf s j))\<rparr>"
    using e(2)[of "Buf j"] by (simp add: get.simps)
  have idn: "dev (buf s' j) = d" "blockno (buf s' j) = bn" "valid (buf s' j) = valid (buf s j)"
    using blk by (simp_all add: bj is_block_def get.simps)
  have oth: "buf s' k = buf s k" if "k \<noteq> j" for k
    using e(2)[of "Buf k"] that by (simp add: get.simps)
  have hd: "head s' = head s"
  proof
    fix i show "head s' i = head s i"
      using e(2)[of "Head i"] by (simp add: get.simps)
  qed
  show ?thesis
  proof (cases "r = Return (Buf j) \<and> valid (buf s j) = 0")
    case True
    let ?s2 = "upd (Buf j) (\<lambda>x. x\<lparr>valid := 1\<rparr>) (virtio_disk_rw (Buf j) False s')"
    from True g idn have "bread NBUCKET p d bn s = Some (r, ?s2)"
      by (simp add: bread_def get.simps)
    moreover have "valid (buf ?s2 j) \<noteq> 0" "trace ?s2 = trace s' @ [DiskRW (Buf j) False]"
      by (simp_all add: get.simps upd.simps virtio_disk_rw_def Let_def)
    ultimately show ?thesis
      using g r bj idn oth hd True by auto
  next
    case False
    with g idn have "bread NBUCKET p d bn s = Some (r, s')"
      by (cases r) (auto simp: bread_def get.simps r split: if_splits)
    with False g r bj idn oth hd show ?thesis
      by auto
  qed
qed

theorem bget_cached_witness:
  "dll cached_once 0 [1, 0] \<and> hash 3 3 = int 0 \<and> (0 :: nat) < 3 \<and>
   find (\<lambda>j. is_block cached_once 1 3 (Buf j)) [1, 0] = Some 0 \<and>
   lock (buf cached_once 0) = None \<and> refcnt (buf cached_once 0) = 0 \<and>
   valid (buf cached_once 0) = 1 \<and>
   (\<exists>s'. bget 3 7 1 3 cached_once = Some (Return (Buf 0), s') \<and>
      refcnt (buf s' 0) = 1 \<and> lock (buf s' 0) = Some 7 \<and>
      bread 3 7 1 3 cached_once = Some (Return (Buf 0), s'))"
proof -
  have hyp: "dll cached_once 0 [1, 0]" "hash 3 3 = int 0" "(0 :: nat) < 3"
    "find (\<lambda>j. is_block cached_once 1 3 (Buf j)) [1, 0] = Some 0"
    by code_simp+
  have st: "lock (buf cached_once 0) = None" "refcnt (buf cached_once 0) = 0"
    "valid (buf cached_once 0) = 1"
    by code_simp+
  from bget_cached[OF hyp, of 7] st obtain s' where
    "bget 3 7 1 3 cached_once = Some (Return (Buf 0), s')"
    "buf s' 0 = (buf cached_once 0)\<lparr>refcnt := 1, lock := Some 7\<rparr>"
    "bread 3 7 1 3 cached_once = Some (Return (Buf 0), s')"
    by auto
  with hyp st show ?thesis
    by simp
qed

subsection \<open>brelse\<close>

text \<open>
  C6. \<^verbatim>\<open>brelse\<close> panics exactly when the caller does not hold the buffer's sleep-lock.
  When the caller holds it, on well-formed buckets where every buffer is on the list of
  the bucket its block number hashes to, \<^verbatim>\<open>brelse\<close> returns, and what it has done is, in
  this order: it has released the sleep-lock; it has taken the spinlock of the bucket \<open>i\<close>
  that owns the buffer; it has stored \<^verbatim>\<open>refcnt\<close>, which is one less (in \<^verbatim>\<open>uint\<close>
  arithmetic); exactly when \<^verbatim>\<open>refcnt\<close> has reached 0 it has stored \<^verbatim>\<open>lastuse\<close>, which is
  then the current tick and otherwise is what it was; it has released the spinlock of
  \<open>i\<close>. Both stores lie between the \<^verbatim>\<open>acquire\<close> and the \<^verbatim>\<open>release\<close> of bucket \<open>i\<close>. No other
  field of the buffer and no other buffer or sentinel has changed, the tick counter and
  the disk are as they were, every bucket holds the list it held, and every buffer is still
  on the list of the bucket its block number hashes to.

  The two hypotheses hold of every cache the operations build: \<^verbatim>\<open>binit\<close> establishes them
  (lemmas \<open>binit_buckets\<close> and \<open>hashed_binit_zeroed\<close>), and \<^verbatim>\<open>bget\<close>, \<^verbatim>\<open>bread\<close>, \<^verbatim>\<open>bwrite\<close>,
  \<^verbatim>\<open>bpin\<close> and \<^verbatim>\<open>bunpin\<close> keep them (lemmas \<open>hashed_bget\<close>, \<open>hashed_bread\<close>, \<open>hashed_bwrite\<close>,
  \<open>hashed_bpin\<close>, \<open>hashed_bunpin\<close>), as \<^verbatim>\<open>brelse\<close> does.
\<close>

theorem brelse_spec:
  assumes b: "buckets NBUCKET NBUF s L" and hs: "hashed NBUCKET s L" and j: "j < NBUF"
  shows "((\<exists>msg. fst (brelse NBUCKET p (Buf j) s) = Panic msg) \<longleftrightarrow> \<not> holdingsleep p (Buf j) s) \<and>
     (holdingsleep p (Buf j) s \<longrightarrow>
        (\<exists>s' i. brelse NBUCKET p (Buf j) s = (Return (), s') \<and>
           i < NBUCKET \<and> j \<in> set (L ! i) \<and>
           trace s' = trace s @ [ReleaseSleep (Buf j), Acquire i, Store (Buf j) Refcnt] @
             (if refcnt (buf s j) - 1 = 0 then [Store (Buf j) Lastuse] else []) @ [Release i] \<and>
           buf s' j = (buf s j)\<lparr>lock := None, refcnt := refcnt (buf s j) - 1,
             lastuse := (if refcnt (buf s j) - 1 = 0 then ticks s else lastuse (buf s j))\<rparr> \<and>
           (\<forall>k. k \<noteq> j \<longrightarrow> buf s' k = buf s k) \<and> head s' = head s \<and>
           ticks s' = ticks s \<and> disk s' = disk s \<and>
           nexts s' = nexts s \<and> prevs s' = prevs s \<and>
           buckets NBUCKET NBUF s' L \<and> hashed NBUCKET s' L))"
proof (intro conjI impI)
  show "(\<exists>msg. fst (brelse NBUCKET p (Buf j) s) = Panic msg) \<longleftrightarrow> \<not> holdingsleep p (Buf j) s"
    by (rule brelse_panic)
next
  assume hold: "holdingsleep p (Buf j) s"
  from hashed_owner[OF b hs j] obtain i where
    i: "i < NBUCKET" "j \<in> set (L ! i)" "hash NBUCKET (blockno (buf s j)) = int i"
    by blast
  from brelse_effect[OF hold i(3)[unfolded buf_get] i(1)] obtain s' where
    r: "brelse NBUCKET p (Buf j) s = (Return (), s')"
    and t0: "trace s' = trace s @ [ReleaseSleep (Buf j), Acquire i, Store (Buf j) Refcnt] @
       (if refcnt (get s (Buf j)) - 1 = 0 then [Store (Buf j) Lastuse] else []) @ [Release i]"
    and g: "\<And>q. get s' q = (if q = Buf j
        then (get s (Buf j))\<lparr>lock := None, refcnt := refcnt (get s (Buf j)) - 1,
               lastuse := (if refcnt (get s (Buf j)) - 1 = 0 then ticks s
                           else lastuse (get s (Buf j)))\<rparr>
        else get s q)"
    and td: "ticks s' = ticks s" "disk s' = disk s"
    by blast
  have t: "trace s' = trace s @ [ReleaseSleep (Buf j), Acquire i, Store (Buf j) Refcnt] @
       (if refcnt (buf s j) - 1 = 0 then [Store (Buf j) Lastuse] else []) @ [Release i]"
    using t0 by (simp only: buf_get)
  have n: "nexts s' = nexts s" "prevs s' = prevs s"
    by (rule nexts_get, simp add: g) (rule prevs_get, simp add: g)
  have bj: "buf s' j = (buf s j)\<lparr>lock := None, refcnt := refcnt (buf s j) - 1,
             lastuse := (if refcnt (buf s j) - 1 = 0 then ticks s else lastuse (buf s j))\<rparr>"
    using g[of "Buf j"] by (simp add: get.simps)
  have oth: "buf s' k = buf s k" if "k \<noteq> j" for k
    using g[of "Buf k"] that by (simp add: get.simps)
  have hd: "head s' = head s"
  proof
    fix m show "head s' m = head s m"
      using g[of "Head m"] by (simp add: get.simps)
  qed
  have bk: "buckets NBUCKET NBUF s' L"
    using b by (simp add: buckets_same_links[OF n])
  have "blockno (buf s' k) = blockno (buf s k)" for k
    using g[of "Buf k"] by (simp add: get.simps)
  with hs have hk: "hashed NBUCKET s' L"
    by (simp add: hashed_def)
  from r i(1,2) t bj oth hd td n bk hk
  show "\<exists>s' i. brelse NBUCKET p (Buf j) s = (Return (), s') \<and>
           i < NBUCKET \<and> j \<in> set (L ! i) \<and>
           trace s' = trace s @ [ReleaseSleep (Buf j), Acquire i, Store (Buf j) Refcnt] @
             (if refcnt (buf s j) - 1 = 0 then [Store (Buf j) Lastuse] else []) @ [Release i] \<and>
           buf s' j = (buf s j)\<lparr>lock := None, refcnt := refcnt (buf s j) - 1,
             lastuse := (if refcnt (buf s j) - 1 = 0 then ticks s else lastuse (buf s j))\<rparr> \<and>
           (\<forall>k. k \<noteq> j \<longrightarrow> buf s' k = buf s k) \<and> head s' = head s \<and>
           ticks s' = ticks s \<and> disk s' = disk s \<and>
           nexts s' = nexts s \<and> prevs s' = prevs s \<and>
           buckets NBUCKET NBUF s' L \<and> hashed NBUCKET s' L"
    by (intro exI[of _ s'] exI[of _ i] conjI allI impI) simp_all
qed

theorem brelse_spec_witness:
  "buckets 3 2 reading [[1, 0], [], []] \<and> hashed 3 reading [[1, 0], [], []] \<and> (0 :: nat) < 2 \<and>
   holdingsleep 7 (Buf 0) reading \<and> refcnt (buf reading 0) = 1 \<and> ticks reading = 0x01010101 \<and>
   (\<exists>s'. brelse 3 7 (Buf 0) reading = (Return (), s') \<and>
      trace s' = trace reading @ [ReleaseSleep (Buf 0), Acquire 0, Store (Buf 0) Refcnt,
                                  Store (Buf 0) Lastuse, Release 0] \<and>
      lock (buf s' 0) = None \<and> refcnt (buf s' 0) = 0 \<and> lastuse (buf s' 0) = 0x01010101 \<and>
      buckets 3 2 s' [[1, 0], [], []] \<and> hashed 3 s' [[1, 0], [], []]) \<and>
   \<not> holdingsleep 8 (Buf 0) reading \<and> fst (brelse 3 8 (Buf 0) reading) = Panic ''brelse'' \<and>
   buckets 3 2 (snd (bpin 3 (Buf 0) reading)) [[1, 0], [], []] \<and>
   hashed 3 (snd (bpin 3 (Buf 0) reading)) [[1, 0], [], []] \<and>
   holdingsleep 7 (Buf 0) (snd (bpin 3 (Buf 0) reading)) \<and>
   refcnt (buf (snd (bpin 3 (Buf 0) reading)) 0) = 2 \<and>
   lastuse (buf (snd (bpin 3 (Buf 0) reading)) 0) = 0 \<and>
   (\<exists>s'. brelse 3 7 (Buf 0) (snd (bpin 3 (Buf 0) reading)) = (Return (), s') \<and>
      trace s' = trace (snd (bpin 3 (Buf 0) reading)) @
         [ReleaseSleep (Buf 0), Acquire 0, Store (Buf 0) Refcnt, Release 0] \<and>
      lock (buf s' 0) = None \<and> refcnt (buf s' 0) = 1 \<and> lastuse (buf s' 0) = 0)"
proof -
  have h1: "buckets 3 2 reading [[1, 0], [], []]"
    by code_simp
  have h2: "hashed 3 reading [[1, 0], [], []]"
    by code_simp
  have h3: "(0 :: nat) < 2"
    by simp
  have s1: "holdingsleep 7 (Buf 0) reading"
    by code_simp
  have s2: "refcnt (buf reading 0) = 1"
    by code_simp
  have s3: "ticks reading = 0x01010101"
    by code_simp
  have s4: "\<not> holdingsleep 8 (Buf 0) reading"
    by code_simp
  have s5: "fst (brelse 3 8 (Buf 0) reading) = Panic ''brelse''"
    by code_simp
  note w = brelse_spec[OF h1 h2 h3, of 7, THEN conjunct2, THEN mp, OF s1]
  from w obtain s' i where
    r: "brelse 3 7 (Buf 0) reading = (Return (), s')" and i: "i < 3" "(0 :: nat) \<in> set ([[1, 0], [], []] ! i)"
    and t: "trace s' = trace reading @ [ReleaseSleep (Buf 0), Acquire i, Store (Buf 0) Refcnt] @
        (if refcnt (buf reading 0) - 1 = 0 then [Store (Buf 0) Lastuse] else []) @ [Release i]"
    and bj: "buf s' 0 = (buf reading 0)\<lparr>lock := None, refcnt := refcnt (buf reading 0) - 1,
        lastuse := (if refcnt (buf reading 0) - 1 = 0 then ticks reading else lastuse (buf reading 0))\<rparr>"
    and b': "buckets 3 2 s' [[1, 0], [], []]" and h': "hashed 3 s' [[1, 0], [], []]"
    by (elim exE conjE)
  have "i = 0 \<or> i = 1 \<or> i = 2"
    using i(1) by arith
  with i(2) have i0: "i = 0"
    by (elim disjE) simp_all
  have t': "trace s' = trace reading @ [ReleaseSleep (Buf 0), Acquire 0, Store (Buf 0) Refcnt,
                                  Store (Buf 0) Lastuse, Release 0]"
    unfolding t i0 s2 by simp
  have "lock (buf s' 0) = None" "refcnt (buf s' 0) = 0" "lastuse (buf s' 0) = 0x01010101"
    unfolding bj s2 s3 by simp_all
  with r t' b' h' have last:
    "\<exists>s'. brelse 3 7 (Buf 0) reading = (Return (), s') \<and>
      trace s' = trace reading @ [ReleaseSleep (Buf 0), Acquire 0, Store (Buf 0) Refcnt,
                                  Store (Buf 0) Lastuse, Release 0] \<and>
      lock (buf s' 0) = None \<and> refcnt (buf s' 0) = 0 \<and> lastuse (buf s' 0) = 0x01010101 \<and>
      buckets 3 2 s' [[1, 0], [], []] \<and> hashed 3 s' [[1, 0], [], []]"
    by (intro exI[of _ s'] conjI)
  have p1: "buckets 3 2 (snd (bpin 3 (Buf 0) reading)) [[1, 0], [], []]"
    by code_simp
  have p2: "hashed 3 (snd (bpin 3 (Buf 0) reading)) [[1, 0], [], []]"
    by code_simp
  have p3: "holdingsleep 7 (Buf 0) (snd (bpin 3 (Buf 0) reading))"
    by code_simp
  have p4: "refcnt (buf (snd (bpin 3 (Buf 0) reading)) 0) = 2"
    by code_simp
  have p5: "lastuse (buf (snd (bpin 3 (Buf 0) reading)) 0) = 0"
    by code_simp
  note w2 = brelse_spec[OF p1 p2 h3, of 7, THEN conjunct2, THEN mp, OF p3]
  from w2 obtain u m where
    r2: "brelse 3 7 (Buf 0) (snd (bpin 3 (Buf 0) reading)) = (Return (), u)"
    and m: "m < 3" "(0 :: nat) \<in> set ([[1, 0], [], []] ! m)"
    and t2: "trace u = trace (snd (bpin 3 (Buf 0) reading)) @
        [ReleaseSleep (Buf 0), Acquire m, Store (Buf 0) Refcnt] @
        (if refcnt (buf (snd (bpin 3 (Buf 0) reading)) 0) - 1 = 0 then [Store (Buf 0) Lastuse] else []) @
        [Release m]"
    and bj2: "buf u 0 = (buf (snd (bpin 3 (Buf 0) reading)) 0)\<lparr>lock := None,
        refcnt := refcnt (buf (snd (bpin 3 (Buf 0) reading)) 0) - 1,
        lastuse := (if refcnt (buf (snd (bpin 3 (Buf 0) reading)) 0) - 1 = 0
                    then ticks (snd (bpin 3 (Buf 0) reading))
                    else lastuse (buf (snd (bpin 3 (Buf 0) reading)) 0))\<rparr>"
    by (elim exE conjE)
  have "m = 0 \<or> m = 1 \<or> m = 2"
    using m(1) by arith
  with m(2) have m0: "m = 0"
    by (elim disjE) simp_all
  have t2': "trace u = trace (snd (bpin 3 (Buf 0) reading)) @
         [ReleaseSleep (Buf 0), Acquire 0, Store (Buf 0) Refcnt, Release 0]"
    unfolding t2 m0 p4 by simp
  have "lock (buf u 0) = None" "refcnt (buf u 0) = 1" "lastuse (buf u 0) = 0"
    unfolding bj2 p4 p5 by simp_all
  with r2 t2' have kept:
    "\<exists>s'. brelse 3 7 (Buf 0) (snd (bpin 3 (Buf 0) reading)) = (Return (), s') \<and>
      trace s' = trace (snd (bpin 3 (Buf 0) reading)) @
         [ReleaseSleep (Buf 0), Acquire 0, Store (Buf 0) Refcnt, Release 0] \<and>
      lock (buf s' 0) = None \<and> refcnt (buf s' 0) = 1 \<and> lastuse (buf s' 0) = 0"
    by (intro exI[of _ u] conjI)
  from h1 h2 h3 s1 s2 s3 last s4 s5 p1 p2 p3 p4 p5 kept show ?thesis
    by (intro conjI)
qed

subsection \<open>Every buffer on one list\<close>

text \<open>
  C7. \<open>buckets NBUCKET NBUF s L\<close> says that the pointers make bucket \<open>i\<close> the list \<open>L ! i\<close>
  and that each of the \<open>NBUF\<close> buffers is on exactly one of these lists, once.
  \<^item> After \<^verbatim>\<open>binit\<close> bucket 0 holds all the buffers and the other buckets are empty.
  \<^item> \<^verbatim>\<open>bget\<close> keeps the invariant: either it leaves every list pointer as it was, or it has
    taken a candidate \<open>c\<close> from the list of a bucket \<open>k\<close> other than the home bucket \<open>h\<close>, where
    the block was not cached, and put it at the front of the list of \<open>h\<close>, bound to the block
    with \<^verbatim>\<open>valid = 0\<close> and \<^verbatim>\<open>refcnt = 1\<close>; the other lists are as they were.
  \<^item> \<^verbatim>\<open>bread\<close> leaves the list pointers \<^verbatim>\<open>bget\<close> left; \<^verbatim>\<open>bwrite\<close>, \<^verbatim>\<open>brelse\<close>, \<^verbatim>\<open>bpin\<close> and
    \<^verbatim>\<open>bunpin\<close> change no list pointer.
\<close>

theorem one_list_invariant:
  "(0 < NBUCKET \<longrightarrow>
      buckets NBUCKET NBUF (binit NBUCKET NBUF s0) (rev [0..<NBUF] # replicate (NBUCKET - 1) [])) \<and>
   (buckets NBUCKET NBUF s L \<longrightarrow>
      (\<forall>j<NBUF. \<exists>!i. i < NBUCKET \<and> j \<in> set (L ! i)) \<and>
      (\<forall>r s'. bget NBUCKET p d bn s = Some (r, s') \<longrightarrow>
         (links s' = links s \<and> buckets NBUCKET NBUF s' L) \<or>
         (\<exists>c k h. hash NBUCKET bn = int h \<and> h < NBUCKET \<and> k < NBUCKET \<and> k \<noteq> h \<and>
            c \<in> set (L ! k) \<and> (r = Return (Buf c) \<or> r = Sleeping (Buf c)) \<and>
            find (\<lambda>j. is_block s d bn (Buf j)) (L ! h) = None \<and>
            dev (buf s' c) = d \<and> blockno (buf s' c) = bn \<and> valid (buf s' c) = 0 \<and>
            refcnt (buf s' c) = 1 \<and>
            buckets NBUCKET NBUF s' (L[k := remove1 c (L ! k), h := c # L ! h])))) \<and>
   (\<forall>r s' r2 s2. bget NBUCKET p d bn s = Some (r, s') \<and> bread NBUCKET p d bn s = Some (r2, s2) \<longrightarrow>
      links s2 = links s') \<and>
   links (snd (bwrite p b s)) = links s \<and>
   links (snd (brelse NBUCKET p b s)) = links s \<and>
   links (snd (bpin NBUCKET b s)) = links s \<and>
   links (snd (bunpin NBUCKET b s)) = links s"
proof (intro conjI impI allI)
  assume "0 < NBUCKET"
  then show "buckets NBUCKET NBUF (binit NBUCKET NBUF s0) (rev [0..<NBUF] # replicate (NBUCKET - 1) [])"
    by (rule binit_buckets)
next
  fix j assume "buckets NBUCKET NBUF s L" "j < NBUF"
  then show "\<exists>!i. i < NBUCKET \<and> j \<in> set (L ! i)"
    by (rule buckets_owner)
next
  fix r s' assume "buckets NBUCKET NBUF s L" "bget NBUCKET p d bn s = Some (r, s')"
  from bget_buckets[OF this] show "(links s' = links s \<and> buckets NBUCKET NBUF s' L) \<or>
         (\<exists>c k h. hash NBUCKET bn = int h \<and> h < NBUCKET \<and> k < NBUCKET \<and> k \<noteq> h \<and>
            c \<in> set (L ! k) \<and> (r = Return (Buf c) \<or> r = Sleeping (Buf c)) \<and>
            find (\<lambda>j. is_block s d bn (Buf j)) (L ! h) = None \<and>
            dev (buf s' c) = d \<and> blockno (buf s' c) = bn \<and> valid (buf s' c) = 0 \<and>
            refcnt (buf s' c) = 1 \<and>
            buckets NBUCKET NBUF s' (L[k := remove1 c (L ! k), h := c # L ! h]))"
    unfolding links_eq by (elim disjE) (simp, rule disjI2)
next
  fix r s' r2 s2
  assume "bget NBUCKET p d bn s = Some (r, s') \<and> bread NBUCKET p d bn s = Some (r2, s2)"
  then show "links s2 = links s'"
    unfolding links_eq using bread_frame(2,3) by blast
qed (rule bwrite_links brelse_links bpin_links bunpin_links)+


theorem one_list_invariant_witness:
  "(0 :: nat) < 3 \<and>
   buckets 3 2 (binit 3 2 zeroed) [[1, 0], [], []] \<and>
   buckets 3 2 late [[1, 0], [], []] \<and>
   (\<exists>!i. i < 3 \<and> (1 :: nat) \<in> set ([[1, 0], [], []] ! i)) \<and>
   (\<exists>s'. bget 3 7 1 5 late = Some (Return (Buf 0), s') \<and>
      nexts s' (Head 2) = Buf 0 \<and> nexts late (Head 2) = Head 2 \<and>
      buckets 3 2 s' [[1], [], [0]])"
proof -
  have h0: "(0 :: nat) < 3"
    by simp
  have hb: "buckets 3 2 late [[1, 0], [], []]"
    by code_simp
  note inv = one_list_invariant[of 3 2 zeroed late "[[1, 0], [], []]" 7 1 5]
  from inv h0 have i1: "buckets 3 2 (binit 3 2 zeroed) (rev [0..<2] # replicate (3 - 1) [])"
    by blast
  have "rev [0..<2] # replicate (3 - 1) [] = [[1 :: nat, 0], [], []]"
    by code_simp
  with i1 have i2: "buckets 3 2 (binit 3 2 zeroed) [[1, 0], [], []]"
    by simp
  from inv hb have "\<forall>j<2. \<exists>!i. i < 3 \<and> j \<in> set ([[1 :: nat, 0], [], []] ! i)"
    by blast
  then have i3: "\<exists>!i. i < 3 \<and> (1 :: nat) \<in> set ([[1, 0], [], []] ! i)"
    by simp
  have e: "map_option (\<lambda>(r, s'). (r, nexts s' (Head 2))) (bget 3 7 1 5 late)
      = Some (Return (Buf 0), Buf 0)"
    by code_simp
  then obtain s' where s': "bget 3 7 1 5 late = Some (Return (Buf 0), s')" "nexts s' (Head 2) = Buf 0"
    by auto
  have n: "nexts late (Head 2) = Head 2"
    by code_simp
  have hh: "hash 3 5 = int 2"
    by code_simp
  from inv hb s'(1) have "(links s' = links late \<and> buckets 3 2 s' [[1, 0], [], []]) \<or>
      (\<exists>c k h. hash 3 5 = int h \<and> h < 3 \<and> k < 3 \<and> k \<noteq> h \<and>
         c \<in> set ([[1, 0], [], []] ! k) \<and>
         (Return (Buf 0) = Return (Buf c) \<or> Return (Buf 0) = Sleeping (Buf c)) \<and>
         buckets 3 2 s' ([[1, 0], [], []][k := remove1 c ([[1, 0], [], []] ! k),
                                         h := c # [[1, 0], [], []] ! h]))"
    by blast
  moreover have "links s' \<noteq> links late"
    using s'(2) n by (auto simp: links_eq)
  ultimately obtain c k h where m: "hash 3 5 = int h" "k < 3" "k \<noteq> h"
    "(c :: nat) \<in> set ([[1, 0], [], []] ! k)" "c = 0"
    "buckets 3 2 s' ([[1, 0], [], []][k := remove1 c ([[1, 0], [], []] ! k),
                                         h := c # [[1, 0], [], []] ! h])"
    by auto
  from m(1) hh have h2: "h = 2"
    by simp
  have "k = 0 \<or> k = 1 \<or> k = 2"
    using m(2) by arith
  with m(4) have k0: "k = 0"
    by (elim disjE) simp_all
  from m(6) have "buckets 3 2 s' [[1], [], [0]]"
    unfolding h2 k0 m(5) by simp
  with h0 i2 hb i3 s' n show ?thesis
    by blast
qed

subsection \<open>The frame of each operation\<close>

text \<open>
  C10. A \<^verbatim>\<open>bget\<close> that finds its block cached changes nothing but the reference count and the
  lock of the buffer it returns, every other buffer and every list head being left as it was;
  \<^verbatim>\<open>brelse\<close> changes only the lock, the reference count and the release tick of its buffer,
  \<^verbatim>\<open>bpin\<close> and \<^verbatim>\<open>bunpin\<close> only the reference count of theirs. On a miss, \<^verbatim>\<open>bget\<close> panics
  without changing any buffer, or it rebinds exactly one buffer \<open>c\<close>, which was unused: the
  device, block number, valid flag and reference count of \<open>c\<close> are set, its contents are kept,
  every field but the two list pointers of every other buffer is unchanged, and the list
  pointers change at most at \<open>c\<close>, its two former neighbours, and the head of the home bucket
  and its former first element.
\<close>

theorem frame_of_operations:
  "(\<forall>r s'. brelse NBUCKET p b s = (r, s') \<longrightarrow>
      (\<forall>q. q \<noteq> b \<longrightarrow> get s' q = get s q) \<and>
      get s' b = (get s b)\<lparr>lock := lock (get s' b), refcnt := refcnt (get s' b),
                             lastuse := lastuse (get s' b)\<rparr>) \<and>
   (\<forall>r s'. bpin NBUCKET b s = (r, s') \<longrightarrow>
      (\<forall>q. q \<noteq> b \<longrightarrow> get s' q = get s q) \<and>
      get s' b = (get s b)\<lparr>refcnt := refcnt (get s' b)\<rparr>) \<and>
   (\<forall>r s'. bunpin NBUCKET b s = (r, s') \<longrightarrow>
      (\<forall>q. q \<noteq> b \<longrightarrow> get s' q = get s q) \<and>
      get s' b = (get s b)\<lparr>refcnt := refcnt (get s' b)\<rparr>) \<and>
   (buckets NBUCKET NBUF s L \<and> hash NBUCKET bn = int h \<and> h < NBUCKET \<longrightarrow>
      (\<exists>r s'. bget NBUCKET p d bn s = Some (r, s') \<and>
         (\<forall>j. find (\<lambda>j. is_block s d bn (Buf j)) (L ! h) = Some j \<longrightarrow>
            (\<forall>q. q \<noteq> Buf j \<longrightarrow> get s' q = get s q) \<and>
            buf s' j = (buf s j)\<lparr>refcnt := refcnt (buf s' j), lock := lock (buf s' j)\<rparr>) \<and>
         (find (\<lambda>j. is_block s d bn (Buf j)) (L ! h) = None \<longrightarrow>
            (r = Panic ''bget: no buffers'' \<and> get s' = get s) \<or>
            (\<exists>c<NBUF. (r = Return (Buf c) \<or> r = Sleeping (Buf c)) \<and> refcnt (buf s c) = 0 \<and>
               dev (buf s' c) = d \<and> blockno (buf s' c) = bn \<and> valid (buf s' c) = 0 \<and>
               refcnt (buf s' c) = 1 \<and> data (buf s' c) = data (buf s c) \<and>
               (\<forall>k. k \<noteq> c \<longrightarrow> payload (buf s' k) = payload (buf s k)) \<and>
               (c \<in> set (L ! h) \<longrightarrow> links s' = links s) \<and>
               (\<forall>q. q \<notin> {Buf c, prevs s (Buf c), nexts s (Buf c), Head h, nexts s (Head h)} \<longrightarrow>
                    links s' q = links s q)))))"
proof (intro conjI allI impI)
  fix r s' q assume "brelse NBUCKET p b s = (r, s')" "q \<noteq> b"
  then show "get s' q = get s q"
    using brelse_frame[of NBUCKET p b s r s' q] by simp
next
  fix r s' assume "brelse NBUCKET p b s = (r, s')"
  then show "get s' b = (get s b)\<lparr>lock := lock (get s' b), refcnt := refcnt (get s' b),
                             lastuse := lastuse (get s' b)\<rparr>"
    using brelse_frame[of NBUCKET p b s r s' b] by simp
next
  fix r s' q assume "bpin NBUCKET b s = (r, s')" "q \<noteq> b"
  then show "get s' q = get s q"
    using bpin_frame[of NBUCKET b s r s' q] by simp
next
  fix r s' assume "bpin NBUCKET b s = (r, s')"
  then show "get s' b = (get s b)\<lparr>refcnt := refcnt (get s' b)\<rparr>"
    using bpin_frame[of NBUCKET b s r s' b] by simp
next
  fix r s' q assume "bunpin NBUCKET b s = (r, s')" "q \<noteq> b"
  then show "get s' q = get s q"
    using bunpin_frame[of NBUCKET b s r s' q] by simp
next
  fix r s' assume "bunpin NBUCKET b s = (r, s')"
  then show "get s' b = (get s b)\<lparr>refcnt := refcnt (get s' b)\<rparr>"
    using bunpin_frame[of NBUCKET b s r s' b] by simp
next
  assume a: "buckets NBUCKET NBUF s L \<and> hash NBUCKET bn = int h \<and> h < NBUCKET"
  then have b: "buckets NBUCKET NBUF s L" and h: "hash NBUCKET bn = int h" "h < NBUCKET"
    by simp_all
  from bget_total[OF b, of p d bn] obtain r s' where g: "bget NBUCKET p d bn s = Some (r, s')"
    by blast
  show "\<exists>r s'. bget NBUCKET p d bn s = Some (r, s') \<and>
         (\<forall>j. find (\<lambda>j. is_block s d bn (Buf j)) (L ! h) = Some j \<longrightarrow>
            (\<forall>q. q \<noteq> Buf j \<longrightarrow> get s' q = get s q) \<and>
            buf s' j = (buf s j)\<lparr>refcnt := refcnt (buf s' j), lock := lock (buf s' j)\<rparr>) \<and>
         (find (\<lambda>j. is_block s d bn (Buf j)) (L ! h) = None \<longrightarrow>
            (r = Panic ''bget: no buffers'' \<and> get s' = get s) \<or>
            (\<exists>c<NBUF. (r = Return (Buf c) \<or> r = Sleeping (Buf c)) \<and> refcnt (buf s c) = 0 \<and>
               dev (buf s' c) = d \<and> blockno (buf s' c) = bn \<and> valid (buf s' c) = 0 \<and>
               refcnt (buf s' c) = 1 \<and> data (buf s' c) = data (buf s c) \<and>
               (\<forall>k. k \<noteq> c \<longrightarrow> payload (buf s' k) = payload (buf s k)) \<and>
               (c \<in> set (L ! h) \<longrightarrow> links s' = links s) \<and>
               (\<forall>q. q \<notin> {Buf c, prevs s (Buf c), nexts s (Buf c), Head h, nexts s (Head h)} \<longrightarrow>
                    links s' q = links s q)))"
  proof (rule exI[of _ r], rule exI[of _ s'], rule conjI[OF g], rule conjI)
    show "\<forall>j. find (\<lambda>j. is_block s d bn (Buf j)) (L ! h) = Some j \<longrightarrow>
            (\<forall>q. q \<noteq> Buf j \<longrightarrow> get s' q = get s q) \<and>
            buf s' j = (buf s j)\<lparr>refcnt := refcnt (buf s' j), lock := lock (buf s' j)\<rparr>"
    proof (rule allI, rule impI)
      fix j assume f: "find (\<lambda>j. is_block s d bn (Buf j)) (L ! h) = Some j"
      show "(\<forall>q. q \<noteq> Buf j \<longrightarrow> get s' q = get s q) \<and>
          buf s' j = (buf s j)\<lparr>refcnt := refcnt (buf s' j), lock := lock (buf s' j)\<rparr>"
        by (rule bget_hit_frame[OF b h f g])
    qed
  next
    show "find (\<lambda>j. is_block s d bn (Buf j)) (L ! h) = None \<longrightarrow>
            (r = Panic ''bget: no buffers'' \<and> get s' = get s) \<or>
            (\<exists>c<NBUF. (r = Return (Buf c) \<or> r = Sleeping (Buf c)) \<and> refcnt (buf s c) = 0 \<and>
               dev (buf s' c) = d \<and> blockno (buf s' c) = bn \<and> valid (buf s' c) = 0 \<and>
               refcnt (buf s' c) = 1 \<and> data (buf s' c) = data (buf s c) \<and>
               (\<forall>k. k \<noteq> c \<longrightarrow> payload (buf s' k) = payload (buf s k)) \<and>
               (c \<in> set (L ! h) \<longrightarrow> links s' = links s) \<and>
               (\<forall>q. q \<notin> {Buf c, prevs s (Buf c), nexts s (Buf c), Head h, nexts s (Head h)} \<longrightarrow>
                    links s' q = links s q))"
    proof (rule impI)
      assume f: "find (\<lambda>j. is_block s d bn (Buf j)) (L ! h) = None"
      show "(r = Panic ''bget: no buffers'' \<and> get s' = get s) \<or>
            (\<exists>c<NBUF. (r = Return (Buf c) \<or> r = Sleeping (Buf c)) \<and> refcnt (buf s c) = 0 \<and>
               dev (buf s' c) = d \<and> blockno (buf s' c) = bn \<and> valid (buf s' c) = 0 \<and>
               refcnt (buf s' c) = 1 \<and> data (buf s' c) = data (buf s c) \<and>
               (\<forall>k. k \<noteq> c \<longrightarrow> payload (buf s' k) = payload (buf s k)) \<and>
               (c \<in> set (L ! h) \<longrightarrow> links s' = links s) \<and>
               (\<forall>q. q \<notin> {Buf c, prevs s (Buf c), nexts s (Buf c), Head h, nexts s (Head h)} \<longrightarrow>
                    links s' q = links s q))"
        by (rule bget_miss_frame[OF b h f g])
    qed
  qed
qed

theorem frame_of_operations_witness:
  "buckets 3 2 late [[1, 0], [], []] \<and> hash 3 5 = int 2 \<and> (2 :: nat) < 3 \<and>
   find (\<lambda>j. is_block late 1 5 (Buf j)) ([[1, 0], [], []] ! 2) = None \<and>
   (\<exists>s'. bget 3 7 1 5 late = Some (Return (Buf 0), s') \<and>
      dev (buf s' 0) = 1 \<and> blockno (buf s' 0) = 5 \<and> valid (buf s' 0) = 0 \<and>
      refcnt (buf s' 0) = 1 \<and> payload (buf s' 1) = payload (buf late 1) \<and>
      links s' (Head 1) = links late (Head 1)) \<and>
   buckets 3 2 cached_once [[1, 0], [], []] \<and> hash 3 3 = int 0 \<and> (0 :: nat) < 3 \<and>
   find (\<lambda>j. is_block cached_once 1 3 (Buf j)) ([[1, 0], [], []] ! 0) = Some 0 \<and>
   (\<exists>r s'. bget 3 7 1 3 cached_once = Some (r, s') \<and>
      get s' (Buf 1) = get cached_once (Buf 1) \<and> get s' (Head 0) = get cached_once (Head 0) \<and>
      buf s' 0 = (buf cached_once 0)\<lparr>refcnt := refcnt (buf s' 0), lock := lock (buf s' 0)\<rparr>) \<and>
   (\<exists>s'. brelse 3 7 (Buf 0) reading = (Return (), s') \<and>
      get s' (Buf 1) = get reading (Buf 1) \<and>
      get s' (Buf 0) = (get reading (Buf 0))\<lparr>lock := lock (get s' (Buf 0)),
         refcnt := refcnt (get s' (Buf 0)), lastuse := lastuse (get s' (Buf 0))\<rparr>)"
proof -
  have a1: "buckets 3 2 late [[1, 0], [], []]"
    by code_simp
  have a2: "hash 3 5 = int 2"
    by code_simp
  have a3: "(2 :: nat) < 3"
    by simp
  have a4: "find (\<lambda>j. is_block late 1 5 (Buf j)) ([[1, 0], [], []] ! 2) = None"
    by code_simp
  note m = frame_of_operations[where NBUCKET = 3 and NBUF = 2 and s = late
      and L = "[[1, 0], [], []]" and bn = 5 and h = 2 and p = 7 and d = 1]
  note m4 = m[THEN conjunct2, THEN conjunct2, THEN conjunct2, THEN mp, OF conjI[OF a1 conjI[OF a2 a3]]]
  from m4 obtain r s' where g: "bget 3 7 1 5 late = Some (r, s')"
    and d0: "find (\<lambda>j. is_block late 1 5 (Buf j)) ([[1, 0], [], []] ! 2) = None \<longrightarrow>
            (r = Panic ''bget: no buffers'' \<and> get s' = get late) \<or>
            (\<exists>c<2. (r = Return (Buf c) \<or> r = Sleeping (Buf c)) \<and> refcnt (buf late c) = 0 \<and>
               dev (buf s' c) = 1 \<and> blockno (buf s' c) = 5 \<and> valid (buf s' c) = 0 \<and>
               refcnt (buf s' c) = 1 \<and> data (buf s' c) = data (buf late c) \<and>
               (\<forall>k. k \<noteq> c \<longrightarrow> payload (buf s' k) = payload (buf late k)) \<and>
               (c \<in> set ([[1, 0], [], []] ! 2) \<longrightarrow> links s' = links late) \<and>
               (\<forall>q. q \<notin> {Buf c, prevs late (Buf c), nexts late (Buf c), Head 2, nexts late (Head 2)} \<longrightarrow>
                    links s' q = links late q))"
    by (elim exE conjE)
  from d0 a4 have d: "(r = Panic ''bget: no buffers'' \<and> get s' = get late) \<or>
            (\<exists>c<2. (r = Return (Buf c) \<or> r = Sleeping (Buf c)) \<and> refcnt (buf late c) = 0 \<and>
               dev (buf s' c) = 1 \<and> blockno (buf s' c) = 5 \<and> valid (buf s' c) = 0 \<and>
               refcnt (buf s' c) = 1 \<and> data (buf s' c) = data (buf late c) \<and>
               (\<forall>k. k \<noteq> c \<longrightarrow> payload (buf s' k) = payload (buf late k)) \<and>
               (c \<in> set ([[1, 0], [], []] ! 2) \<longrightarrow> links s' = links late) \<and>
               (\<forall>q. q \<notin> {Buf c, prevs late (Buf c), nexts late (Buf c), Head 2, nexts late (Head 2)} \<longrightarrow>
                    links s' q = links late q))"
    by (rule mp)
  have "map_option fst (bget 3 7 1 5 late) = Some (Return (Buf 0))"
    by code_simp
  with g have r: "r = Return (Buf 0)"
    by simp
  with d have "\<exists>c<2. (Return (Buf 0) = Return (Buf c) \<or> Return (Buf 0) = Sleeping (Buf c)) \<and> refcnt (buf late c) = 0 \<and>
               dev (buf s' c) = 1 \<and> blockno (buf s' c) = 5 \<and> valid (buf s' c) = 0 \<and>
               refcnt (buf s' c) = 1 \<and> data (buf s' c) = data (buf late c) \<and>
               (\<forall>k. k \<noteq> c \<longrightarrow> payload (buf s' k) = payload (buf late k)) \<and>
               (c \<in> set ([[1, 0], [], []] ! 2) \<longrightarrow> links s' = links late) \<and>
               (\<forall>q. q \<notin> {Buf c, prevs late (Buf c), nexts late (Buf c), Head 2, nexts late (Head 2)} \<longrightarrow>
                    links s' q = links late q)"
    by simp
  then obtain c where c: "Return (Buf 0) = Return (Buf c) \<or> Return (Buf 0) = Sleeping (Buf c)"
      "dev (buf s' c) = 1" "blockno (buf s' c) = 5" "valid (buf s' c) = 0" "refcnt (buf s' c) = 1"
      "\<forall>k. k \<noteq> c \<longrightarrow> payload (buf s' k) = payload (buf late k)"
      "\<forall>q. q \<notin> {Buf c, prevs late (Buf c), nexts late (Buf c), Head 2, nexts late (Head 2)} \<longrightarrow>
                    links s' q = links late q"
    by (elim exE conjE)
  from c(1) have c0: "c = 0"
    by simp
  have n: "Head 1 \<notin> {Buf 0, prevs late (Buf 0), nexts late (Buf 0), Head 2, nexts late (Head 2)}"
    by code_simp
  from c(6)[rule_format, of 1] c0 have p1: "payload (buf s' 1) = payload (buf late 1)"
    by simp
  from c(7)[rule_format, of "Head 1"] c0 n have l1: "links s' (Head 1) = links late (Head 1)"
    by simp
  from g r c(2-5) c0 p1 l1
  have miss: "\<exists>s'. bget 3 7 1 5 late = Some (Return (Buf 0), s') \<and>
      dev (buf s' 0) = 1 \<and> blockno (buf s' 0) = 5 \<and> valid (buf s' 0) = 0 \<and>
      refcnt (buf s' 0) = 1 \<and> payload (buf s' 1) = payload (buf late 1) \<and>
      links s' (Head 1) = links late (Head 1)"
    by blast
  have b1: "buckets 3 2 cached_once [[1, 0], [], []]"
    by code_simp
  have b2: "hash 3 3 = int 0"
    by code_simp
  have b3: "(0 :: nat) < 3"
    by simp
  have b4: "find (\<lambda>j. is_block cached_once 1 3 (Buf j)) ([[1, 0], [], []] ! 0) = Some 0"
    by code_simp
  note hf = frame_of_operations[where NBUCKET = 3 and NBUF = 2 and s = cached_once
      and L = "[[1, 0], [], []]" and bn = 3 and h = 0 and p = 7 and d = 1]
  note hf4 = hf[THEN conjunct2, THEN conjunct2, THEN conjunct2, THEN mp, OF conjI[OF b1 conjI[OF b2 b3]]]
  from hf4 obtain r2 s2 where g2: "bget 3 7 1 3 cached_once = Some (r2, s2)"
    and e0: "\<forall>j. find (\<lambda>j. is_block cached_once 1 3 (Buf j)) ([[1, 0], [], []] ! 0) = Some j \<longrightarrow>
            (\<forall>q. q \<noteq> Buf j \<longrightarrow> get s2 q = get cached_once q) \<and>
            buf s2 j = (buf cached_once j)\<lparr>refcnt := refcnt (buf s2 j), lock := lock (buf s2 j)\<rparr>"
    by (elim exE conjE)
  note e1 = e0[THEN spec, THEN mp, OF b4]
  from e1 have e2: "\<forall>q. q \<noteq> Buf 0 \<longrightarrow> get s2 q = get cached_once q"
      "buf s2 0 = (buf cached_once 0)\<lparr>refcnt := refcnt (buf s2 0), lock := lock (buf s2 0)\<rparr>"
    by (rule conjunct1, rule conjunct2)
  from e2(1) have "get s2 (Buf 1) = get cached_once (Buf 1)" "get s2 (Head 0) = get cached_once (Head 0)"
    by simp_all
  with g2 e2(2)
  have hit: "\<exists>r s'. bget 3 7 1 3 cached_once = Some (r, s') \<and>
      get s' (Buf 1) = get cached_once (Buf 1) \<and> get s' (Head 0) = get cached_once (Head 0) \<and>
      buf s' 0 = (buf cached_once 0)\<lparr>refcnt := refcnt (buf s' 0), lock := lock (buf s' 0)\<rparr>"
    by blast
  have "fst (brelse 3 7 (Buf 0) reading) = Return ()"
    by code_simp
  then obtain s3 where g3: "brelse 3 7 (Buf 0) reading = (Return (), s3)"
    by (cases "brelse 3 7 (Buf 0) reading") simp
  note rf = frame_of_operations[where NBUCKET = 3 and p = 7 and b = "Buf 0" and s = reading]
  from rf[THEN conjunct1, THEN spec, THEN spec, THEN mp, OF g3] have e3: "\<forall>q. q \<noteq> Buf 0 \<longrightarrow> get s3 q = get reading q"
      "get s3 (Buf 0) = (get reading (Buf 0))\<lparr>lock := lock (get s3 (Buf 0)),
         refcnt := refcnt (get s3 (Buf 0)), lastuse := lastuse (get s3 (Buf 0))\<rparr>"
    by (rule conjunct1, rule conjunct2)
  from e3(1) have "get s3 (Buf 1) = get reading (Buf 1)"
    by simp
  with g3 e3(2)
  have rel: "\<exists>s'. brelse 3 7 (Buf 0) reading = (Return (), s') \<and>
      get s' (Buf 1) = get reading (Buf 1) \<and>
      get s' (Buf 0) = (get reading (Buf 0))\<lparr>lock := lock (get s' (Buf 0)),
         refcnt := refcnt (get s' (Buf 0)), lastuse := lastuse (get s' (Buf 0))\<rparr>"
    by blast
  from a1 a2 a3 a4 miss b1 b2 b3 b4 hit rel show ?thesis
    by (intro conjI)
qed

end
